theory Spec2Isabelle
  imports Main
begin

section \<open>Build configuration and the constants of the matching engine\<close>

text \<open>
  \<^verbatim>\<open>src/utils/regex.cc\<close> is compiled either against PCRE (the preprocessor symbol
  \<^verbatim>\<open>WITH_PCRE2\<close> undefined) or against PCRE2 (\<^verbatim>\<open>WITH_PCRE2\<close> defined). Both variants are
  part of the source, so every function below takes the build as its first argument and
  follows the \<^verbatim>\<open>#ifdef\<close> branches of the source.
\<close>

datatype build = WITHOUT_PCRE2 | WITH_PCRE2

datatype RegexResult = Ok | ErrorMatchLimit | ErrorOther

text \<open>
  The result codes and newline codes come from the headers of the two libraries
  (\<^verbatim>\<open>pcre.h\<close>, \<^verbatim>\<open>pcre2.h\<close>); their numeric values are the libraries' published ones.
\<close>

definition PCRE_ERROR_NOMATCH :: int where "PCRE_ERROR_NOMATCH = - 1"
definition PCRE_ERROR_MATCHLIMIT :: int where "PCRE_ERROR_MATCHLIMIT = - 8"
definition PCRE2_ERROR_NOMATCH :: int where "PCRE2_ERROR_NOMATCH = - 1"
definition PCRE2_ERROR_JIT_STACKLIMIT :: int where "PCRE2_ERROR_JIT_STACKLIMIT = - 46"
definition PCRE2_ERROR_MATCHLIMIT :: int where "PCRE2_ERROR_MATCHLIMIT = - 47"

definition PCRE_NEWLINE_CR :: int where "PCRE_NEWLINE_CR = 1048576"
definition PCRE_NEWLINE_LF :: int where "PCRE_NEWLINE_LF = 2097152"
definition PCRE_NEWLINE_CRLF :: int where "PCRE_NEWLINE_CRLF = 3145728"
definition PCRE_NEWLINE_ANY :: int where "PCRE_NEWLINE_ANY = 4194304"
definition PCRE_NEWLINE_ANYCRLF :: int where "PCRE_NEWLINE_ANYCRLF = 5242880"

definition PCRE2_NEWLINE_CRLF :: int where "PCRE2_NEWLINE_CRLF = 3"
definition PCRE2_NEWLINE_ANY :: int where "PCRE2_NEWLINE_ANY = 4"
definition PCRE2_NEWLINE_ANYCRLF :: int where "PCRE2_NEWLINE_ANYCRLF = 5"

text \<open>
  \<^verbatim>\<open>Regex::to_regex_result\<close>: the classification of the engine's result code.
\<close>

definition to_regex_result :: "build \<Rightarrow> int \<Rightarrow> RegexResult" where
  "to_regex_result b pcre_exec_result =
     (if pcre_exec_result > 0 \<or>
         pcre_exec_result =
           (case b of WITH_PCRE2 \<Rightarrow> PCRE2_ERROR_NOMATCH | WITHOUT_PCRE2 \<Rightarrow> PCRE_ERROR_NOMATCH)
      then Ok
      else if pcre_exec_result =
           (case b of WITH_PCRE2 \<Rightarrow> PCRE2_ERROR_MATCHLIMIT
                    | WITHOUT_PCRE2 \<Rightarrow> PCRE_ERROR_MATCHLIMIT)
      then ErrorMatchLimit
      else ErrorOther)"

text \<open>
  \<^verbatim>\<open>crlfIsNewline\<close>: the argument \<open>newline\<close> is the value the library's configuration query
  (\<^verbatim>\<open>pcre2_config(PCRE2_CONFIG_NEWLINE, ...)\<close>, \<^verbatim>\<open>pcre_config(PCRE_CONFIG_NEWLINE, ...)\<close>)
  stores.
\<close>

definition crlfIsNewline :: "build \<Rightarrow> int \<Rightarrow> bool" where
  "crlfIsNewline b newline =
     (case b of
        WITH_PCRE2 \<Rightarrow>
          newline = PCRE2_NEWLINE_ANY \<or> newline = PCRE2_NEWLINE_CRLF \<or>
          newline = PCRE2_NEWLINE_ANYCRLF
      | WITHOUT_PCRE2 \<Rightarrow>
          (let d = newline;
               option_bits =
                 (if d = 13 then PCRE_NEWLINE_CR
                  else if d = 10 then PCRE_NEWLINE_LF
                  else if d = 13 * 256 + 10 then PCRE_NEWLINE_CRLF
                  else if d = - 2 then PCRE_NEWLINE_ANYCRLF
                  else if d = - 1 then PCRE_NEWLINE_ANY
                  else 0)
           in option_bits = PCRE_NEWLINE_ANY \<or> option_bits = PCRE_NEWLINE_CRLF \<or>
              option_bits = PCRE_NEWLINE_ANYCRLF))"

section \<open>The engine as a parameter\<close>

text \<open>
  The matching engine itself is a library outside the repository. A compiled pattern is
  therefore a record of the functions the source calls on it: one match attempt takes the
  subject, the start offset, the option bits and the match limit in force (\<open>None\<close>: no
  limit was set), and answers with the result code \<open>rc\<close> and the offset vector. The
  theorems quantify over this record, which covers every pattern and every reply the
  engine could give.

  The offset vector is read at the indices \<open>2 * i\<close> and \<open>2 * i + 1\<close> for \<open>i < rc\<close>; it is a
  total function here (the source's vector has \<^verbatim>\<open>OVECCOUNT\<close> entries, and the engine never
  reports more groups than fit). Its entries are \<^verbatim>\<open>int\<close> in the PCRE build and
  \<^verbatim>\<open>PCRE2_SIZE\<close> in the PCRE2 build; the source converts them to \<^verbatim>\<open>size_t\<close> before use,
  which is \<open>size_t_of\<close> (the identity on values that already are \<^verbatim>\<open>size_t\<close>).
  Subjects are taken to be shorter than \<open>2 ^ 31\<close> bytes, so that the cursor, an \<^verbatim>\<open>int\<close>
  in the PCRE build, holds every position up to one past the end of the subject.
\<close>

datatype exec_option = NOTEMPTY_ATSTART | ANCHORED | NO_JIT

type_synonym exec_reply = "int \<times> (nat \<Rightarrow> int)"

record engine =
  config_newline :: int
  m_pcje :: int
  m_pce_present :: bool
  exec_match :: "string \<Rightarrow> nat \<Rightarrow> exec_option set \<Rightarrow> nat option \<Rightarrow> exec_reply"
  exec_jit_match :: "string \<Rightarrow> nat \<Rightarrow> nat option \<Rightarrow> exec_reply"

definition size_t_of :: "int \<Rightarrow> nat" where
  "size_t_of v = nat (v mod 2 ^ 64)"

definition size_t_sub :: "nat \<Rightarrow> nat \<Rightarrow> nat" where
  "size_t_sub a b = nat ((int a - int b) mod 2 ^ 64)"

definition size_t_add :: "nat \<Rightarrow> nat \<Rightarrow> nat" where
  "size_t_add a b = (a + b) mod 2 ^ 64"

text \<open>
  The match limit in force, for a \<^verbatim>\<open>match_limit\<close> of type \<^verbatim>\<open>unsigned long\<close>. The PCRE2
  build tests \<^verbatim>\<open>match_limit > 0\<close> and then hands the value to
  \<^verbatim>\<open>pcre2_set_match_limit\<close>, whose parameter is a \<^verbatim>\<open>uint32_t\<close>: the limit set is the value
  modulo \<open>2 ^ 32\<close>. The PCRE build copies the study data and stores the value in its field
  \<^verbatim>\<open>match_limit\<close>, an \<^verbatim>\<open>unsigned long\<close> too, when the study data exists and
  \<^verbatim>\<open>match_limit > 0\<close>.
\<close>

definition limit_in_force :: "build \<Rightarrow> engine \<Rightarrow> nat \<Rightarrow> nat option" where
  "limit_in_force b e match_limit =
     (case b of
        WITH_PCRE2 \<Rightarrow> (if match_limit > 0 then Some (match_limit mod 2 ^ 32) else None)
      | WITHOUT_PCRE2 \<Rightarrow>
          (if m_pce_present e \<and> match_limit > 0 then Some match_limit else None))"

text \<open>
  The PCRE2 build of \<^verbatim>\<open>searchAll\<close> and \<^verbatim>\<open>searchOneMatch\<close> tries the JIT entry point when
  \<^verbatim>\<open>m_pcje == 0\<close> and falls back to the interpreter when \<^verbatim>\<open>m_pcje != 0\<close> or the JIT call
  answered \<^verbatim>\<open>PCRE2_ERROR_JIT_STACKLIMIT\<close>; the offset vector read afterwards is that of the
  last call made. The PCRE build makes one call with no options.
\<close>

definition exec_once :: "build \<Rightarrow> engine \<Rightarrow> string \<Rightarrow> nat \<Rightarrow> nat option \<Rightarrow> exec_reply" where
  "exec_once b e s offset lim =
     (case b of
        WITH_PCRE2 \<Rightarrow>
          (if m_pcje e = 0
           then (let r = exec_jit_match e s offset lim
                 in if fst r = PCRE2_ERROR_JIT_STACKLIMIT
                    then exec_match e s offset {NO_JIT} lim else r)
           else exec_match e s offset {NO_JIT} lim)
      | WITHOUT_PCRE2 \<Rightarrow> exec_match e s offset {} lim)"

section \<open>Match values\<close>

record SMatch =
  match_str :: string
  match_offset :: nat

record SMatchCapture =
  m_group :: nat
  m_offset :: nat
  m_length :: nat

datatype error = out_of_range

text \<open>
  \<^verbatim>\<open>std::string(s, pos, n)\<close>: throws \<^verbatim>\<open>std::out_of_range\<close> when \<open>pos\<close> is beyond the end of
  \<open>s\<close>, and otherwise copies at most \<open>n\<close> characters from \<open>pos\<close> on.
\<close>

definition substr :: "string \<Rightarrow> nat \<Rightarrow> nat \<Rightarrow> error + string" where
  "substr s pos n = (if pos > length s then Inl out_of_range else Inr (take n (drop pos s)))"

section \<open>searchOneMatch\<close>

fun searchOneMatch_groups ::
  "string \<Rightarrow> (nat \<Rightarrow> int) \<Rightarrow> nat list \<Rightarrow> SMatchCapture list \<Rightarrow> SMatchCapture list" where
  "searchOneMatch_groups s ovector [] captures = captures"
| "searchOneMatch_groups s ovector (i # is) captures =
     (let start = size_t_of (ovector (2 * i));
          end = size_t_of (ovector (2 * i + 1));
          len = size_t_sub end start
      in if end > length s then searchOneMatch_groups s ovector is captures
         else searchOneMatch_groups s ovector is
                (captures @ [\<lparr>m_group = i, m_offset = start, m_length = len\<rparr>]))"

definition searchOneMatch ::
  "build \<Rightarrow> engine \<Rightarrow> string \<Rightarrow> SMatchCapture list \<Rightarrow> nat \<Rightarrow> RegexResult \<times> SMatchCapture list"
  where
  "searchOneMatch b e s captures match_limit =
     (let (rc, ovector) = exec_once b e s 0 (limit_in_force b e match_limit)
      in (to_regex_result b rc, searchOneMatch_groups s ovector [0..<nat rc] captures))"

section \<open>searchGlobal\<close>

record global_state =
  startOffset :: nat
  prev_match_zero_length :: bool
  captures :: "SMatchCapture list"

text \<open>The \<^verbatim>\<open>for\<close> loop over the groups of one successful attempt.\<close>

fun searchGlobal_groups ::
  "string \<Rightarrow> (nat \<Rightarrow> int) \<Rightarrow> nat \<Rightarrow> nat list \<Rightarrow> global_state \<Rightarrow> global_state" where
  "searchGlobal_groups s ovector firstGroupForThisFullMatch [] st = st"
| "searchGlobal_groups s ovector firstGroupForThisFullMatch (i # is) st =
     (let start = size_t_of (ovector (2 * i));
          end = size_t_of (ovector (2 * i + 1));
          len = size_t_sub end start
      in if end > length s
         then searchGlobal_groups s ovector firstGroupForThisFullMatch is st
         else
           (let st1 = st\<lparr>captures := captures st @
                        [\<lparr>m_group = firstGroupForThisFullMatch + i, m_offset = start,
                          m_length = len\<rparr>]\<rparr>;
                st2 =
                  (if i = 0 then
                     (if len > 0 then st1\<lparr>startOffset := end, prev_match_zero_length := False\<rparr>
                      else if startOffset st1 = length s
                        then st1\<lparr>startOffset := startOffset st1 + 1\<rparr>
                        else st1\<lparr>prev_match_zero_length := True\<rparr>)
                   else st1)
            in searchGlobal_groups s ovector firstGroupForThisFullMatch is st2))"

text \<open>
  The advance after a failed retry: one position, and one more when CRLF counts as a
  newline and the bytes at the positions \<open>startOffset - 1\<close> and \<open>startOffset\<close> (after the
  first increment) are CR and LF.
\<close>

definition advance_after_retry :: "build \<Rightarrow> engine \<Rightarrow> string \<Rightarrow> nat \<Rightarrow> nat" where
  "advance_after_retry b e s startOffset0 =
     (let startOffset1 = startOffset0 + 1
      in if crlfIsNewline b (config_newline e) \<and> startOffset1 < length s \<and>
            s ! (startOffset1 - 1) = CHR 0x0D \<and> s ! startOffset1 = CHR 0x0A
         then startOffset1 + 1 else startOffset1)"

text \<open>
  The body of the \<^verbatim>\<open>while\<close> loop: one attempt at the cursor and what follows from it.
  The body ends by going round the loop again with a new state (\<open>Continue\<close>), by
  \<^verbatim>\<open>break\<close> (\<open>Break\<close>) or by returning a result from inside the loop (\<open>Return\<close>). Only the
  PCRE build classifies the result code inside the loop (the check stands inside the
  \<^verbatim>\<open>#else\<close> branch).
\<close>

datatype loop_exit = Continue global_state | Break | Return RegexResult

definition searchGlobal_body ::
  "build \<Rightarrow> engine \<Rightarrow> string \<Rightarrow> nat option \<Rightarrow> global_state \<Rightarrow> loop_exit" where
  "searchGlobal_body b e s lim st =
     (let pcre_options =
            (if prev_match_zero_length st then {NOTEMPTY_ATSTART, ANCHORED} else {});
          (rc, ovector) = exec_match e s (startOffset st) pcre_options lim
      in if b = WITHOUT_PCRE2 \<and> to_regex_result b rc \<noteq> Ok
         then Return (to_regex_result b rc)
         else if rc > 0
         then Continue (searchGlobal_groups s ovector (length (captures st)) [0..<nat rc] st)
         else if prev_match_zero_length st
         then Continue (st\<lparr>startOffset := advance_after_retry b e s (startOffset st),
                           prev_match_zero_length := False\<rparr>)
         else Break)"

text \<open>
  The \<^verbatim>\<open>while\<close> loop. The first argument bounds the number of iterations; \<open>None\<close> means
  the bound was reached before the loop ended. After the loop the function returns \<open>Ok\<close>;
  the captures are those collected in the caller's vector up to then.
\<close>

fun searchGlobal_loop ::
  "nat \<Rightarrow> build \<Rightarrow> engine \<Rightarrow> string \<Rightarrow> nat option \<Rightarrow> global_state \<Rightarrow>
   (RegexResult \<times> SMatchCapture list) option" where
  "searchGlobal_loop 0 b e s lim st = None"
| "searchGlobal_loop (Suc n) b e s lim st =
     (if startOffset st \<le> length s then
        (case searchGlobal_body b e s lim st of
           Continue st1 \<Rightarrow> searchGlobal_loop n b e s lim st1
         | Break \<Rightarrow> Some (Ok, captures st)
         | Return regex_result \<Rightarrow> Some (regex_result, captures st))
      else Some (Ok, captures st))"

definition searchGlobal ::
  "nat \<Rightarrow> build \<Rightarrow> engine \<Rightarrow> string \<Rightarrow> SMatchCapture list \<Rightarrow> nat \<Rightarrow>
   (RegexResult \<times> SMatchCapture list) option" where
  "searchGlobal fuel b e s caps match_limit =
     searchGlobal_loop fuel b e s (limit_in_force b e match_limit)
       \<lparr>startOffset = 0, prev_match_zero_length = False, captures = caps\<rparr>"

section \<open>searchAll\<close>

text \<open>
  The \<^verbatim>\<open>for\<close> loop of \<^verbatim>\<open>searchAll\<close> over the groups of one attempt. It works on the
  result code, the search offset and the result list (\<^verbatim>\<open>push_front\<close> puts a match at the
  head), and ends early with \<open>rc = - 1\<close> on a group that ends beyond the subject and with
  \<open>rc = 0\<close> after an empty group. The string constructor may throw.
\<close>

fun searchAll_groups ::
  "string \<Rightarrow> (nat \<Rightarrow> int) \<Rightarrow> nat list \<Rightarrow> int \<times> nat \<times> SMatch list \<Rightarrow>
   error + (int \<times> nat \<times> SMatch list)" where
  "searchAll_groups s ovector [] (rc, offset, retList) = Inr (rc, offset, retList)"
| "searchAll_groups s ovector (i # is) (rc, offset, retList) =
     (let start = size_t_of (ovector (2 * i));
          end = size_t_of (ovector (2 * i + 1));
          len = size_t_sub end start
      in if end > length s then Inr (- 1, offset, retList)
         else
           (case substr s start len of
              Inl ex \<Rightarrow> Inl ex
            | Inr match \<Rightarrow>
                (let offset1 = size_t_add start len;
                     retList1 = \<lparr>match_str = match, match_offset = start\<rparr> # retList
                 in if len = 0 then Inr (0, offset1, retList1)
                    else searchAll_groups s ovector is (rc, offset1, retList1))))"

text \<open>
  The \<^verbatim>\<open>do ... while (rc > 0)\<close> loop, with a bound on the number of iterations as for
  \<open>searchGlobal_loop\<close>. No match limit is in force here.
\<close>

fun searchAll_loop ::
  "nat \<Rightarrow> build \<Rightarrow> engine \<Rightarrow> string \<Rightarrow> nat \<Rightarrow> SMatch list \<Rightarrow> (error + SMatch list) option"
  where
  "searchAll_loop 0 b e s offset retList = None"
| "searchAll_loop (Suc n) b e s offset retList =
     (let (rc, ovector) = exec_once b e s offset None
      in case searchAll_groups s ovector [0..<nat rc] (rc, offset, retList) of
           Inl ex \<Rightarrow> Some (Inl ex)
         | Inr (rc1, offset1, retList1) \<Rightarrow>
             if rc1 > 0 then searchAll_loop n b e s offset1 retList1
             else Some (Inr retList1))"

definition searchAll :: "nat \<Rightarrow> build \<Rightarrow> engine \<Rightarrow> string \<Rightarrow> (error + SMatch list) option" where
  "searchAll fuel b e s = searchAll_loop fuel b e s 0 []"

section \<open>search with a match\<close>

text \<open>
  \<^verbatim>\<open>Regex::search(s, match)\<close>. The result of the engine is compared with \<open>0\<close> at once, so
  \<open>ret\<close> is \<open>0\<close> or \<open>1\<close>; in the PCRE2 build the comparison of \<open>ret\<close> with
  \<^verbatim>\<open>PCRE2_ERROR_JIT_STACKLIMIT\<close> is kept as the source has it. The function returns \<open>ret\<close>
  and the content of \<^verbatim>\<open>*match\<close> afterwards.
\<close>

definition bool_to_int :: "bool \<Rightarrow> int" where
  "bool_to_int c = (if c then 1 else 0)"

definition search :: "build \<Rightarrow> engine \<Rightarrow> string \<Rightarrow> SMatch \<Rightarrow> error + (int \<times> SMatch)" where
  "search b e s match =
     (let (rc, ovector) =
            (case b of
               WITH_PCRE2 \<Rightarrow>
                 (if m_pcje e = 0
                  then (let r = exec_match e s 0 {} None
                        in if bool_to_int (fst r > 0) = PCRE2_ERROR_JIT_STACKLIMIT
                           then exec_match e s 0 {NO_JIT} None else r)
                  else exec_match e s 0 {NO_JIT} None)
             | WITHOUT_PCRE2 \<Rightarrow> exec_match e s 0 {} None);
          ret = bool_to_int (rc > 0)
      in if ret > 0 then
           (case substr s (size_t_of (ovector (nat (ret - 1))))
                   (size_t_of (ovector (nat ret) - ovector (nat (ret - 1)))) of
              Inl ex \<Rightarrow> Inl ex
            | Inr text \<Rightarrow> Inr (ret, \<lparr>match_str = text, match_offset = 0\<rparr>))
         else Inr (ret, match))"

section \<open>The phase table\<close>

text \<open>
  The classes of the rules are declared outside the files at hand. Modelled from the
  spec: a rule exposes its phase as an \<^verbatim>\<open>int\<close> (\<^verbatim>\<open>getPhase()\<close>), and a rule with an operator
  (the subclass \<^verbatim>\<open>RuleWithOperator\<close>, which the source finds by \<^verbatim>\<open>dynamic_cast\<close>) has an
  identifier \<^verbatim>\<open>m_ruleId\<close> as well, a 64-bit integer that \<open>int\<close> stands for here.
  A bucket (\<^verbatim>\<open>Rules\<close>) is the list \<^verbatim>\<open>m_rules\<close>; the table \<^verbatim>\<open>m_rulesAtPhase\<close> is an array of
  buckets. The number of phases \<^verbatim>\<open>NUMBER_OF_PHASES\<close> is declared outside the files at hand
  too and is a parameter of the functions below; the array holds at least that many
  buckets.
\<close>

datatype Rule = Rule (getPhase: int) | RuleWithOperator (getPhase: int) (m_ruleId: int)

type_synonym Rules = "Rule list"

datatype fault = array_index_out_of_bounds

text \<open>
  Modelled from the spec: \<^verbatim>\<open>Rules::insert\<close>, the insertion into one bucket, is declared
  outside the files at hand. The spec: it always succeeds at this level and appends to
  the ordered collection.
\<close>

definition Rules_insert :: "Rules \<Rightarrow> Rule \<Rightarrow> Rules" where
  "Rules_insert m_rules rule = m_rules @ [rule]"

text \<open>
  \<^verbatim>\<open>RulesSetPhases::insert\<close>. The only check is \<^verbatim>\<open>getPhase() >= NUMBER_OF_PHASES\<close>, a
  comparison of two \<^verbatim>\<open>int\<close>s; after it the array is indexed with the phase, which for a
  negative phase is an access outside the array.
\<close>

definition RulesSetPhases_insert :: "nat \<Rightarrow> Rules list \<Rightarrow> Rule \<Rightarrow> fault + (bool \<times> Rules list)" where
  "RulesSetPhases_insert NUMBER_OF_PHASES m_rulesAtPhase rule =
     (if getPhase rule \<ge> int NUMBER_OF_PHASES then Inr (False, m_rulesAtPhase)
      else if getPhase rule < 0 \<or> nat (getPhase rule) \<ge> length m_rulesAtPhase
        then Inl array_index_out_of_bounds
        else Inr (True,
               m_rulesAtPhase[nat (getPhase rule) :=
                 Rules_insert (m_rulesAtPhase ! nat (getPhase rule)) rule]))"

text \<open>
  \<^verbatim>\<open>RulesSetPhases::append\<close>. The first pair of loops pushes the identifier of every rule
  with an operator onto \<open>v\<close>, bucket after bucket; \<open>v\<close> is then sorted.
\<close>

fun collect_ids :: "Rules \<Rightarrow> int list \<Rightarrow> int list" where
  "collect_ids [] v = v"
| "collect_ids (r # rs) v =
     (case r of
        Rule phase \<Rightarrow> collect_ids rs v
      | RuleWithOperator phase rid \<Rightarrow> collect_ids rs (v @ [rid]))"

fun collect_ids_phases :: "Rules list \<Rightarrow> nat list \<Rightarrow> int list \<Rightarrow> int list" where
  "collect_ids_phases m_rulesAtPhase [] v = v"
| "collect_ids_phases m_rulesAtPhase (i # is) v =
     collect_ids_phases m_rulesAtPhase is (collect_ids (m_rulesAtPhase ! i) v)"

text \<open>
  The merge of one bucket, \<^verbatim>\<open>Rules::append(from, ids, err)\<close>, is declared outside the files
  at hand and is the parameter \<open>Rules_append\<close>: from the destination bucket, the source
  bucket, the identifiers and the error sink it yields its \<^verbatim>\<open>int\<close> result, the destination
  bucket afterwards and the error sink afterwards. The source table is a table of its own
  (not the destination itself).
\<close>

type_synonym 'e bucket_merge = "Rules \<Rightarrow> Rules \<Rightarrow> int list \<Rightarrow> 'e \<Rightarrow> int \<times> Rules \<times> 'e"

fun append_phases ::
  "'e bucket_merge \<Rightarrow> Rules list \<Rightarrow> int list \<Rightarrow> nat list \<Rightarrow> int \<Rightarrow> Rules list \<Rightarrow> 'e \<Rightarrow>
   int \<times> Rules list \<times> 'e" where
  "append_phases Rules_append from v [] amount_of_rules m_rulesAtPhase err =
     (amount_of_rules, m_rulesAtPhase, err)"
| "append_phases Rules_append from v (phase # phases) amount_of_rules m_rulesAtPhase err =
     (let (res, bucket, err1) = Rules_append (m_rulesAtPhase ! phase) (from ! phase) v err;
          m_rulesAtPhase1 = m_rulesAtPhase[phase := bucket]
      in if res < 0 then (res, m_rulesAtPhase1, err1)
         else append_phases Rules_append from v phases (amount_of_rules + res)
                m_rulesAtPhase1 err1)"

definition RulesSetPhases_append ::
  "nat \<Rightarrow> 'e bucket_merge \<Rightarrow> Rules list \<Rightarrow> Rules list \<Rightarrow> 'e \<Rightarrow> int \<times> Rules list \<times> 'e" where
  "RulesSetPhases_append NUMBER_OF_PHASES Rules_append m_rulesAtPhase from err =
     (let v = sort (collect_ids_phases m_rulesAtPhase [0..<NUMBER_OF_PHASES] [])
      in append_phases Rules_append from v [0..<NUMBER_OF_PHASES] 0 m_rulesAtPhase err)"

section \<open>Notions used in the statements\<close>

text \<open>The engine's codes for "no match" and "match limit exceeded", by build.\<close>

definition ERROR_NOMATCH :: "build \<Rightarrow> int" where
  "ERROR_NOMATCH b =
     (case b of WITH_PCRE2 \<Rightarrow> PCRE2_ERROR_NOMATCH | WITHOUT_PCRE2 \<Rightarrow> PCRE_ERROR_NOMATCH)"

definition ERROR_MATCHLIMIT :: "build \<Rightarrow> int" where
  "ERROR_MATCHLIMIT b =
     (case b of WITH_PCRE2 \<Rightarrow> PCRE2_ERROR_MATCHLIMIT | WITHOUT_PCRE2 \<Rightarrow> PCRE_ERROR_MATCHLIMIT)"

text \<open>
  What the offset vector reports for group \<open>i\<close>, as the loops read it: start, end and the
  length \<^verbatim>\<open>end - start\<close> in \<^verbatim>\<open>size_t\<close> arithmetic.
\<close>

definition group_start :: "(nat \<Rightarrow> int) \<Rightarrow> nat \<Rightarrow> nat" where
  "group_start ovector i = size_t_of (ovector (2 * i))"

definition group_end :: "(nat \<Rightarrow> int) \<Rightarrow> nat \<Rightarrow> nat" where
  "group_end ovector i = size_t_of (ovector (2 * i + 1))"

definition group_len :: "(nat \<Rightarrow> int) \<Rightarrow> nat \<Rightarrow> nat" where
  "group_len ovector i = size_t_sub (group_end ovector i) (group_start ovector i)"

text \<open>The capture and the match the loops build from group \<open>i\<close>.\<close>

definition capture_of :: "nat \<Rightarrow> (nat \<Rightarrow> int) \<Rightarrow> nat \<Rightarrow> SMatchCapture" where
  "capture_of first ovector i =
     \<lparr>m_group = first + i, m_offset = group_start ovector i, m_length = group_len ovector i\<rparr>"

definition match_of :: "string \<Rightarrow> (nat \<Rightarrow> int) \<Rightarrow> nat \<Rightarrow> SMatch" where
  "match_of s ovector i =
     \<lparr>match_str = take (group_len ovector i) (drop (group_start ovector i) s),
      match_offset = group_start ovector i\<rparr>"

text \<open>The end offset of a capture, \<^verbatim>\<open>m_offset + m_length\<close> in \<^verbatim>\<open>size_t\<close> arithmetic.\<close>

definition capture_end :: "SMatchCapture \<Rightarrow> nat" where
  "capture_end c = size_t_add (m_offset c) (m_length c)"

text \<open>
  A group that \<^verbatim>\<open>searchAll\<close> records and passes: it ends inside the subject, it starts
  inside the subject (the string constructor does not throw) and it is not empty.
\<close>

definition passes :: "string \<Rightarrow> (nat \<Rightarrow> int) \<Rightarrow> nat \<Rightarrow> bool" where
  "passes s ovector i =
     (group_end ovector i \<le> length s \<and> group_start ovector i \<le> length s \<and>
      group_len ovector i \<noteq> 0)"

text \<open>
  The matches of \<^verbatim>\<open>searchAll\<close> in the order of their discovery: the same two loops, with
  each match put at the end of the list instead of the front. The source has no such
  function; it is the yardstick for the order of the list \<^verbatim>\<open>searchAll\<close> returns.
\<close>

fun discovery_groups ::
  "string \<Rightarrow> (nat \<Rightarrow> int) \<Rightarrow> nat list \<Rightarrow> int \<times> nat \<times> SMatch list \<Rightarrow>
   error + (int \<times> nat \<times> SMatch list)" where
  "discovery_groups s ovector [] (rc, offset, found) = Inr (rc, offset, found)"
| "discovery_groups s ovector (i # is) (rc, offset, found) =
     (let start = size_t_of (ovector (2 * i));
          end = size_t_of (ovector (2 * i + 1));
          len = size_t_sub end start
      in if end > length s then Inr (- 1, offset, found)
         else
           (case substr s start len of
              Inl ex \<Rightarrow> Inl ex
            | Inr match \<Rightarrow>
                (let offset1 = size_t_add start len;
                     found1 = found @ [\<lparr>match_str = match, match_offset = start\<rparr>]
                 in if len = 0 then Inr (0, offset1, found1)
                    else discovery_groups s ovector is (rc, offset1, found1))))"

fun discovery_loop ::
  "nat \<Rightarrow> build \<Rightarrow> engine \<Rightarrow> string \<Rightarrow> nat \<Rightarrow> SMatch list \<Rightarrow> (error + SMatch list) option"
  where
  "discovery_loop 0 b e s offset found = None"
| "discovery_loop (Suc n) b e s offset found =
     (let (rc, ovector) = exec_once b e s offset None
      in case discovery_groups s ovector [0..<nat rc] (rc, offset, found) of
           Inl ex \<Rightarrow> Some (Inl ex)
         | Inr (rc1, offset1, found1) \<Rightarrow>
             if rc1 > 0 then discovery_loop n b e s offset1 found1
             else Some (Inr found1))"

definition discovery_order :: "nat \<Rightarrow> build \<Rightarrow> engine \<Rightarrow> string \<Rightarrow> (error + SMatch list) option"
  where
  "discovery_order fuel b e s = discovery_loop fuel b e s 0 []"

text \<open>
  The matches of the attempts of \<^verbatim>\<open>searchGlobal\<close>, as blocks of captures: \<open>numbered\<close> holds
  of a list of blocks when each block is what one reply of the engine with a match gives,
  the captures of the groups that end inside the subject, numbered from the size the
  collection has when the block is added (\<open>first\<close> for the first block).
\<close>

fun numbered ::
  "engine \<Rightarrow> string \<Rightarrow> nat option \<Rightarrow> nat \<Rightarrow> SMatchCapture list list \<Rightarrow> bool" where
  "numbered e s lim first [] = True"
| "numbered e s lim first (block # blocks) =
     ((\<exists>offset opts rc ov. exec_match e s offset opts lim = (rc, ov) \<and> 0 < rc \<and>
          block = map (capture_of first ov) (filter (\<lambda>i. group_end ov i \<le> length s) [0..<nat rc]) \<and>
          (group_end ov 0 \<le> length s \<longrightarrow> block \<noteq> [] \<and> m_group (hd block) = first)) \<and>
      numbered e s lim (first + length block) blocks)"

text \<open>The identifiers of the rules with an operator in one bucket, in bucket order.\<close>

fun operator_ids :: "Rules \<Rightarrow> int list" where
  "operator_ids [] = []"
| "operator_ids (Rule phase # rs) = operator_ids rs"
| "operator_ids (RuleWithOperator phase rid # rs) = rid # operator_ids rs"

text \<open>
  What the merges of the phases \<open>0\<close> to \<open>n - 1\<close> give when every phase is merged, in
  ascending order, from the bucket of the source table into the bucket the destination
  had before the call, with the one list \<open>v\<close>, the error sink handed on from one merge
  to the next. The source has no such function; its loop, which updates the table as it
  goes and stops at a negative result, is compared with this list.
\<close>

fun phase_outcomes ::
  "'e bucket_merge \<Rightarrow> Rules list \<Rightarrow> Rules list \<Rightarrow> int list \<Rightarrow> 'e \<Rightarrow> nat \<Rightarrow>
   (int \<times> Rules \<times> 'e) list" where
  "phase_outcomes Rules_append tab from v err 0 = []"
| "phase_outcomes Rules_append tab from v err (Suc n) =
     (let outs = phase_outcomes Rules_append tab from v err n
      in outs @ [Rules_append (tab ! n) (from ! n) v
                   (if n = 0 then err else snd (snd (last outs)))])"

section \<open>Engines and a bucket merge for the examples\<close>

text \<open>
  An engine whose replies depend on the start offset and the options only, on both entry
  points, and the offset vector that holds the listed entries.
\<close>

definition ovector_of :: "int list \<Rightarrow> nat \<Rightarrow> int" where
  "ovector_of xs i = (if i < length xs then xs ! i else 0)"

definition scripted_engine :: "int \<Rightarrow> (nat \<Rightarrow> exec_option set \<Rightarrow> exec_reply) \<Rightarrow> engine" where
  "scripted_engine newline script =
     \<lparr>config_newline = newline, m_pcje = 0, m_pce_present = True,
      exec_match = (\<lambda>s offset opts lim. script offset opts),
      exec_jit_match = (\<lambda>s offset lim. script offset {})\<rparr>"

text \<open>
  A bucket merge that refuses a source bucket holding an operator rule whose identifier is
  among \<open>ids\<close> (result \<open>- 1\<close>, a message for the error sink, the destination untouched),
  and otherwise appends the source bucket and answers with its size.
\<close>

definition refusing_merge :: "string list bucket_merge" where
  "refusing_merge dst src ids err =
     (if \<exists>rid \<in> set (operator_ids src). rid \<in> set ids
      then (- 1, dst, err @ [''duplicated rule id''])
      else (int (length src), dst @ src, err))"

section \<open>Arithmetic of the offsets\<close>

lemma size_t_of_less: "size_t_of v < 2 ^ 64"
  by (simp add: size_t_of_def nat_less_iff)

lemma size_t_add_sub:
  assumes "a < 2 ^ 64" and "e < 2 ^ 64"
  shows "size_t_add a (size_t_sub e a) = e"
proof -
  let ?M = "(2::int) ^ 64"
  have nn: "0 \<le> (int e - int a) mod ?M" by simp
  have "int (size_t_add a (size_t_sub e a)) = (int a + (int e - int a) mod ?M) mod ?M"
    using nn by (simp add: size_t_add_def size_t_sub_def zmod_int)
  also have "\<dots> = (int a + (int e - int a)) mod ?M"
    by (simp only: mod_add_right_eq)
  also have "\<dots> = int e" using assms(2) by simp
  finally show ?thesis by simp
qed

lemma group_end_eq: "size_t_add (group_start ov i) (group_len ov i) = group_end ov i"
  unfolding group_len_def group_start_def group_end_def
  by (rule size_t_add_sub) (rule size_t_of_less)+

lemma capture_end_capture_of: "capture_end (capture_of first ov i) = group_end ov i"
  by (simp add: capture_end_def capture_of_def group_end_eq)

lemma size_t_sub_self: "size_t_sub a a = 0"
  by (simp add: size_t_sub_def)

lemma size_t_of_nat: "0 \<le> v \<Longrightarrow> v < 2 ^ 64 \<Longrightarrow> size_t_of v = nat v"
  by (simp add: size_t_of_def)

text \<open>One step of each group loop, in terms of the notions above.\<close>

lemma searchOneMatch_groups_Cons:
  "searchOneMatch_groups s ov (i # is) caps =
     (if group_end ov i \<le> length s
      then searchOneMatch_groups s ov is (caps @ [capture_of 0 ov i])
      else searchOneMatch_groups s ov is caps)"
  by (simp add: Let_def group_start_def group_end_def group_len_def capture_of_def)

lemma searchOneMatch_groups_filter:
  "searchOneMatch_groups s ov is caps =
     caps @ map (capture_of 0 ov) (filter (\<lambda>i. group_end ov i \<le> length s) is)"
proof (induction "is" arbitrary: caps)
  case Nil
  show ?case by simp
next
  case (Cons i "is")
  show ?case unfolding searchOneMatch_groups_Cons by (simp add: Cons.IH)
qed

lemma searchGlobal_groups_Cons:
  "searchGlobal_groups s ov first (i # is) st =
     (if group_end ov i \<le> length s
      then searchGlobal_groups s ov first is
             (if i = 0 then
                (if group_len ov i > 0
                 then st\<lparr>captures := captures st @ [capture_of first ov i],
                         startOffset := group_end ov i, prev_match_zero_length := False\<rparr>
                 else if startOffset st = length s
                   then st\<lparr>captures := captures st @ [capture_of first ov i],
                           startOffset := startOffset st + 1\<rparr>
                   else st\<lparr>captures := captures st @ [capture_of first ov i],
                           prev_match_zero_length := True\<rparr>)
              else st\<lparr>captures := captures st @ [capture_of first ov i]\<rparr>)
      else searchGlobal_groups s ov first is st)"
  by (simp add: Let_def group_start_def group_end_def group_len_def capture_of_def)

lemma searchGlobal_groups_captures:
  "captures (searchGlobal_groups s ov first is st) =
     captures st @ map (capture_of first ov) (filter (\<lambda>i. group_end ov i \<le> length s) is)"
proof (induction "is" arbitrary: st)
  case Nil
  show ?case by simp
next
  case (Cons i "is")
  show ?case unfolding searchGlobal_groups_Cons by (simp add: Cons.IH)
qed

section \<open>The loop of searchGlobal\<close>

lemma searchGlobal_loop_step:
  assumes "exec_match e s (startOffset st)
             (if prev_match_zero_length st then {NOTEMPTY_ATSTART, ANCHORED} else {}) lim = (rc, ov)"
  shows "searchGlobal_loop (Suc n) b e s lim st =
     (if startOffset st \<le> length s then
        (if b = WITHOUT_PCRE2 \<and> to_regex_result b rc \<noteq> Ok
         then Some (to_regex_result b rc, captures st)
         else if rc > 0
         then searchGlobal_loop n b e s lim
                (searchGlobal_groups s ov (length (captures st)) [0..<nat rc] st)
         else if prev_match_zero_length st
         then searchGlobal_loop n b e s lim
                (st\<lparr>startOffset := advance_after_retry b e s (startOffset st),
                    prev_match_zero_length := False\<rparr>)
         else Some (Ok, captures st))
      else Some (Ok, captures st))"
  using assms by (cases b) (simp_all add: searchGlobal_body_def)

lemma searchGlobal_loop_extends:
  "searchGlobal_loop n b e s lim st = Some (r, caps') \<Longrightarrow>
   \<exists>new. caps' = captures st @ new \<and> (\<forall>c \<in> set new. capture_end c \<le> length s)"
proof (induction n arbitrary: st)
  case 0
  then show ?case by simp
next
  case (Suc n)
  obtain rc ov where r: "exec_match e s (startOffset st)
             (if prev_match_zero_length st then {NOTEMPTY_ATSTART, ANCHORED} else {}) lim = (rc, ov)"
    by (cases "exec_match e s (startOffset st)
             (if prev_match_zero_length st then {NOTEMPTY_ATSTART, ANCHORED} else {}) lim")
  note step = searchGlobal_loop_step[OF r, of n b]
  consider (ret) "caps' = captures st"
    | (grp) "searchGlobal_loop n b e s lim
                (searchGlobal_groups s ov (length (captures st)) [0..<nat rc] st) = Some (r, caps')"
    | (adv) "searchGlobal_loop n b e s lim
                (st\<lparr>startOffset := advance_after_retry b e s (startOffset st),
                    prev_match_zero_length := False\<rparr>) = Some (r, caps')"
    using Suc.prems unfolding step by (auto split: if_splits)
  then show ?case
  proof cases
    case ret
    then show ?thesis by simp
  next
    case grp
    from Suc.IH[OF grp] obtain new where
      new: "caps' = captures (searchGlobal_groups s ov (length (captures st)) [0..<nat rc] st) @ new"
        "\<forall>c \<in> set new. capture_end c \<le> length s" by blast
    show ?thesis
      using new unfolding searchGlobal_groups_captures
      by (intro exI[of _ "map (capture_of (length (captures st)) ov)
             (filter (\<lambda>i. group_end ov i \<le> length s) [0..<nat rc]) @ new"])
         (auto simp: capture_end_capture_of)
  next
    case adv
    from Suc.IH[OF adv] show ?thesis by simp
  qed
qed

lemma searchGlobal_loop_fuel:
  "searchGlobal_loop n b e s lim st = Some r \<Longrightarrow> searchGlobal_loop (n + k) b e s lim st = Some r"
proof (induction n arbitrary: st)
  case 0
  then show ?case by simp
next
  case (Suc n)
  obtain rc ov where r: "exec_match e s (startOffset st)
             (if prev_match_zero_length st then {NOTEMPTY_ATSTART, ANCHORED} else {}) lim = (rc, ov)"
    by (cases "exec_match e s (startOffset st)
             (if prev_match_zero_length st then {NOTEMPTY_ATSTART, ANCHORED} else {}) lim")
  have eq: "Suc n + k = Suc (n + k)" by simp
  show ?case
    using Suc.prems Suc.IH
    unfolding eq searchGlobal_loop_step[OF r, of n b] searchGlobal_loop_step[OF r, of "n + k" b]
    by (auto split: if_splits)
qed

section \<open>The result classes and the branch without a match\<close>

lemmas pcre_codes = PCRE_ERROR_NOMATCH_def PCRE_ERROR_MATCHLIMIT_def PCRE2_ERROR_NOMATCH_def
  PCRE2_ERROR_MATCHLIMIT_def PCRE2_ERROR_JIT_STACKLIMIT_def ERROR_NOMATCH_def
  ERROR_MATCHLIMIT_def

lemma nomatch_not_positive: "\<not> 0 < ERROR_NOMATCH b"
  by (cases b) (simp_all add: pcre_codes)

lemma nomatch_Ok: "to_regex_result b (ERROR_NOMATCH b) = Ok"
  by (cases b) (simp_all add: to_regex_result_def pcre_codes)

lemma positive_Ok: "0 < rc \<Longrightarrow> to_regex_result b rc = Ok"
  by (simp add: to_regex_result_def)

lemma advance_after_retry_eq:
  "advance_after_retry b e s k =
     (if crlfIsNewline b (config_newline e) \<and> k + 1 < length s \<and>
         s ! k = CHR 0x0D \<and> s ! (k + 1) = CHR 0x0A
      then k + 2 else k + 1)"
  by (simp add: advance_after_retry_def Let_def)

lemma crlfIsNewline_iff:
  "crlfIsNewline b newline \<longleftrightarrow>
     (case b of WITH_PCRE2 \<Rightarrow> newline = 3 \<or> newline = 4 \<or> newline = 5
              | WITHOUT_PCRE2 \<Rightarrow> newline = 3338 \<or> newline = - 2 \<or> newline = - 1)"
  by (cases b) (auto simp: crlfIsNewline_def Let_def PCRE_NEWLINE_CR_def PCRE_NEWLINE_LF_def
     PCRE_NEWLINE_CRLF_def PCRE_NEWLINE_ANY_def PCRE_NEWLINE_ANYCRLF_def
     PCRE2_NEWLINE_CRLF_def PCRE2_NEWLINE_ANY_def PCRE2_NEWLINE_ANYCRLF_def)

lemma scripted_engine_simps:
  "config_newline (scripted_engine nl f) = nl"
  "m_pcje (scripted_engine nl f) = 0"
  "m_pce_present (scripted_engine nl f) = True"
  "exec_match (scripted_engine nl f) s k opts lim = f k opts"
  "exec_jit_match (scripted_engine nl f) s k lim = f k {}"
  by (simp_all add: scripted_engine_def)

text \<open>
  Claim C1. In \<^verbatim>\<open>searchGlobal\<close>, take an iteration whose attempt finds no match (the
  engine answers with its no-match code). If the attempt was the anchored, non-empty
  retry after an empty match, the body of the loop ends by going round again, with the
  flag cleared and the cursor moved by one position, or by two when \<^verbatim>\<open>crlfIsNewline()\<close>
  holds and the bytes at the cursor and after it are CR and LF (the positions
  \<^verbatim>\<open>startOffset - 1\<close> and \<^verbatim>\<open>startOffset\<close> of the source, which reads them after the first
  increment); the rest of the run is the run of the loop from that state. If the attempt
  was an unconstrained one, the body ends by \<^verbatim>\<open>break\<close> and the function returns \<open>Ok\<close> with
  the captures collected so far. \<^verbatim>\<open>crlfIsNewline()\<close> holds for exactly the newline
  settings CRLF, ANYCRLF and ANY of the engine.
\<close>

theorem searchGlobal_no_match_branch:
  assumes "startOffset st \<le> length s"
    and "fst (exec_match e s (startOffset st)
               (if prev_match_zero_length st then {NOTEMPTY_ATSTART, ANCHORED} else {}) lim)
         = ERROR_NOMATCH b"
  shows "(prev_match_zero_length st \<longrightarrow>
            searchGlobal_body b e s lim st =
              Continue (st\<lparr>startOffset :=
                    (if crlfIsNewline b (config_newline e) \<and> startOffset st + 1 < length s \<and>
                        s ! startOffset st = CHR 0x0D \<and> s ! (startOffset st + 1) = CHR 0x0A
                     then startOffset st + 2 else startOffset st + 1),
                  prev_match_zero_length := False\<rparr>) \<and>
            searchGlobal_loop (Suc n) b e s lim st =
            searchGlobal_loop n b e s lim
              (st\<lparr>startOffset :=
                    (if crlfIsNewline b (config_newline e) \<and> startOffset st + 1 < length s \<and>
                        s ! startOffset st = CHR 0x0D \<and> s ! (startOffset st + 1) = CHR 0x0A
                     then startOffset st + 2 else startOffset st + 1),
                  prev_match_zero_length := False\<rparr>)) \<and>
         (\<not> prev_match_zero_length st \<longrightarrow>
            searchGlobal_body b e s lim st = Break \<and>
            searchGlobal_loop (Suc n) b e s lim st = Some (Ok, captures st)) \<and>
         (crlfIsNewline b (config_newline e) \<longleftrightarrow>
            (case b of
               WITH_PCRE2 \<Rightarrow> config_newline e = PCRE2_NEWLINE_CRLF \<or>
                 config_newline e = PCRE2_NEWLINE_ANYCRLF \<or> config_newline e = PCRE2_NEWLINE_ANY
             | WITHOUT_PCRE2 \<Rightarrow> config_newline e = 13 * 256 + 10 \<or>
                 config_newline e = - 2 \<or> config_newline e = - 1))"
proof -
  obtain rc ov where r: "exec_match e s (startOffset st)
      (if prev_match_zero_length st then {NOTEMPTY_ATSTART, ANCHORED} else {}) lim = (rc, ov)"
    by (cases "exec_match e s (startOffset st)
      (if prev_match_zero_length st then {NOTEMPTY_ATSTART, ANCHORED} else {}) lim")
  with assms(2) have rc: "rc = ERROR_NOMATCH b" by simp
  have body: "searchGlobal_body b e s lim st =
      (if prev_match_zero_length st
       then Continue (st\<lparr>startOffset := advance_after_retry b e s (startOffset st),
                         prev_match_zero_length := False\<rparr>)
       else Break)"
    using r unfolding searchGlobal_body_def
    by (auto simp add: Let_def rc nomatch_not_positive nomatch_Ok)
  have crlf: "crlfIsNewline b (config_newline e) \<longleftrightarrow>
            (case b of
               WITH_PCRE2 \<Rightarrow> config_newline e = PCRE2_NEWLINE_CRLF \<or>
                 config_newline e = PCRE2_NEWLINE_ANYCRLF \<or> config_newline e = PCRE2_NEWLINE_ANY
             | WITHOUT_PCRE2 \<Rightarrow> config_newline e = 13 * 256 + 10 \<or>
                 config_newline e = - 2 \<or> config_newline e = - 1)"
    unfolding crlfIsNewline_iff
    by (cases b)
       (auto simp: PCRE2_NEWLINE_CRLF_def PCRE2_NEWLINE_ANY_def PCRE2_NEWLINE_ANYCRLF_def)
  show ?thesis
    using assms(1) crlf unfolding body advance_after_retry_eq[symmetric]
    by (simp add: body)
qed

theorem searchGlobal_no_match_branch_witness:
  "startOffset \<lparr>startOffset = 0, prev_match_zero_length = True, captures = []\<rparr>
     \<le> length [CHR 0x0D, CHR 0x0A, CHR ''a''] \<and>
   fst (exec_match
          (scripted_engine (- 1)
             (\<lambda>k opts. if k = 2 then (1, ovector_of [2, 3])
                        else if k = 1 then (1, ovector_of [1, 2]) else (- 1, ovector_of [])))
          [CHR 0x0D, CHR 0x0A, CHR ''a''] 0 {NOTEMPTY_ATSTART, ANCHORED} None)
     = ERROR_NOMATCH WITHOUT_PCRE2 \<and>
   searchGlobal_body WITHOUT_PCRE2
      (scripted_engine (- 1)
         (\<lambda>k opts. if k = 2 then (1, ovector_of [2, 3])
                    else if k = 1 then (1, ovector_of [1, 2]) else (- 1, ovector_of [])))
      [CHR 0x0D, CHR 0x0A, CHR ''a''] None
      \<lparr>startOffset = 0, prev_match_zero_length = True, captures = []\<rparr> =
   Continue \<lparr>startOffset = 2, prev_match_zero_length = False, captures = []\<rparr> \<and>
   searchGlobal_loop (Suc (Suc (Suc 0))) WITHOUT_PCRE2
      (scripted_engine (- 1)
         (\<lambda>k opts. if k = 2 then (1, ovector_of [2, 3])
                    else if k = 1 then (1, ovector_of [1, 2]) else (- 1, ovector_of [])))
      [CHR 0x0D, CHR 0x0A, CHR ''a''] None
      \<lparr>startOffset = 0, prev_match_zero_length = True, captures = []\<rparr> =
   Some (Ok, [\<lparr>m_group = 0, m_offset = 2, m_length = 1\<rparr>])"
proof -
  let ?e = "scripted_engine (- 1)
         (\<lambda>k opts. if k = 2 then (1, ovector_of [2, 3])
                    else if k = 1 then (1, ovector_of [1, 2]) else (- 1, ovector_of []))"
  let ?s = "[CHR 0x0D, CHR 0x0A, CHR ''a'']"
  let ?st = "\<lparr>startOffset = 0, prev_match_zero_length = True, captures = []\<rparr>"
  let ?st1 = "\<lparr>startOffset = 2, prev_match_zero_length = False, captures = []\<rparr>"
  have h1: "startOffset ?st \<le> length ?s" by simp
  have h2: "fst (exec_match ?e ?s (startOffset ?st)
      (if prev_match_zero_length ?st then {NOTEMPTY_ATSTART, ANCHORED} else {}) None)
      = ERROR_NOMATCH WITHOUT_PCRE2"
    by (simp add: scripted_engine_simps pcre_codes)
  note t = searchGlobal_no_match_branch[OF h1 h2, of "Suc (Suc 0)"]
  have adv: "?st\<lparr>startOffset :=
          (if crlfIsNewline WITHOUT_PCRE2 (config_newline ?e) \<and> startOffset ?st + 1 < length ?s \<and>
              ?s ! startOffset ?st = CHR 0x0D \<and> ?s ! (startOffset ?st + 1) = CHR 0x0A
           then startOffset ?st + 2 else startOffset ?st + 1),
        prev_match_zero_length := False\<rparr> = ?st1"
    by (simp add: scripted_engine_simps crlfIsNewline_iff)
  have c1: "searchGlobal_body WITHOUT_PCRE2 ?e ?s None ?st = Continue ?st1"
    using t[THEN conjunct1] unfolding adv by simp
  have "searchGlobal_loop (Suc (Suc (Suc 0))) WITHOUT_PCRE2 ?e ?s None ?st =
        searchGlobal_loop (Suc (Suc 0)) WITHOUT_PCRE2 ?e ?s None ?st1"
    using t[THEN conjunct1] unfolding adv by simp
  also have "\<dots> = Some (Ok, [\<lparr>m_group = 0, m_offset = 2, m_length = 1\<rparr>])"
    by (simp add: searchGlobal_body_def scripted_engine_simps to_regex_result_def pcre_codes
          ovector_of_def size_t_of_def size_t_sub_def)
  finally have c2: "searchGlobal_loop (Suc (Suc (Suc 0))) WITHOUT_PCRE2 ?e ?s None ?st =
      Some (Ok, [\<lparr>m_group = 0, m_offset = 2, m_length = 1\<rparr>])" .
  from h1 h2 c1 c2 show ?thesis by simp
qed

text \<open>
  Claim C5. \<^verbatim>\<open>to_regex_result\<close> sorts every result code into one of three classes: \<open>Ok\<close>
  for exactly the positive codes and the no-match code, \<open>ErrorMatchLimit\<close> for exactly the
  match-limit code, \<open>ErrorOther\<close> for exactly the rest, the code \<open>0\<close> among them. The two
  engine codes are negative and differ, so each class is met.
\<close>

theorem to_regex_result_three_buckets:
  "(to_regex_result b rc = Ok \<longleftrightarrow> 0 < rc \<or> rc = ERROR_NOMATCH b) \<and>
   (to_regex_result b rc = ErrorMatchLimit \<longleftrightarrow> rc = ERROR_MATCHLIMIT b) \<and>
   (to_regex_result b rc = ErrorOther \<longleftrightarrow>
      rc \<le> 0 \<and> rc \<noteq> ERROR_NOMATCH b \<and> rc \<noteq> ERROR_MATCHLIMIT b) \<and>
   to_regex_result b 0 = ErrorOther \<and>
   ERROR_NOMATCH b < 0 \<and> ERROR_MATCHLIMIT b < 0 \<and> ERROR_NOMATCH b \<noteq> ERROR_MATCHLIMIT b"
  by (cases b) (auto simp: to_regex_result_def pcre_codes)

section \<open>Engine errors, the empty subject and the numbering of captures in searchGlobal\<close>

lemma searchGlobal_no_match_branch_plain:
  assumes "startOffset st \<le> length s" and "\<not> prev_match_zero_length st"
    and "fst (exec_match e s (startOffset st) {} lim) = ERROR_NOMATCH b"
  shows "searchGlobal_loop (Suc n) b e s lim st = Some (Ok, captures st)"
proof -
  obtain rc ov where r: "exec_match e s (startOffset st)
      (if prev_match_zero_length st then {NOTEMPTY_ATSTART, ANCHORED} else {}) lim = (rc, ov)"
    by (cases "exec_match e s (startOffset st)
      (if prev_match_zero_length st then {NOTEMPTY_ATSTART, ANCHORED} else {}) lim")
  with assms(2,3) have rc: "rc = ERROR_NOMATCH b" by simp
  show ?thesis
    unfolding searchGlobal_loop_step[OF r]
    using assms(1,2) by (simp add: rc nomatch_not_positive nomatch_Ok)
qed

lemma searchGlobal_loop_past_end:
  "length s < startOffset st \<Longrightarrow> searchGlobal_loop (Suc n) b e s lim st = Some (Ok, captures st)"
  by simp

lemma searchGlobal_loop_error_WITHOUT_PCRE2:
  assumes "startOffset st \<le> length s"
    and "exec_match e s (startOffset st)
           (if prev_match_zero_length st then {NOTEMPTY_ATSTART, ANCHORED} else {}) lim = (rc, ov)"
    and "to_regex_result WITHOUT_PCRE2 rc \<noteq> Ok"
  shows "searchGlobal_loop (Suc n) WITHOUT_PCRE2 e s lim st =
         Some (to_regex_result WITHOUT_PCRE2 rc, captures st)"
  unfolding searchGlobal_loop_step[OF assms(2)] using assms(1,3) by simp

lemma searchGlobal_loop_WITH_PCRE2_Ok:
  "searchGlobal_loop n WITH_PCRE2 e s lim st = Some (r, caps') \<Longrightarrow> r = Ok"
proof (induction n arbitrary: st)
  case 0
  then show ?case by simp
next
  case (Suc n)
  obtain rc ov where r: "exec_match e s (startOffset st)
      (if prev_match_zero_length st then {NOTEMPTY_ATSTART, ANCHORED} else {}) lim = (rc, ov)"
    by (cases "exec_match e s (startOffset st)
      (if prev_match_zero_length st then {NOTEMPTY_ATSTART, ANCHORED} else {}) lim")
  show ?case
    using Suc.prems Suc.IH unfolding searchGlobal_loop_step[OF r, of n WITH_PCRE2]
    by (auto split: if_splits)
qed

text \<open>
  Claim C2, at the input where the code departs from it. In the PCRE2 build the loop of
  \<^verbatim>\<open>searchGlobal\<close> never classifies the result code. Here the engine answers the first
  attempt on the subject \<open>a\<close> with \<^verbatim>\<open>PCRE2_ERROR_MATCHLIMIT\<close>, which \<^verbatim>\<open>to_regex_result\<close>
  classifies as \<open>ErrorMatchLimit\<close>; the function returns \<open>Ok\<close> all the same.
\<close>

theorem searchGlobal_WITH_PCRE2_loses_match_limit:
  "to_regex_result WITH_PCRE2
     (fst (exec_match (scripted_engine 2 (\<lambda>k opts. (PCRE2_ERROR_MATCHLIMIT, ovector_of [])))
             ''a'' 0 {} (Some 1))) = ErrorMatchLimit \<and>
   searchGlobal (Suc 0) WITH_PCRE2
     (scripted_engine 2 (\<lambda>k opts. (PCRE2_ERROR_MATCHLIMIT, ovector_of []))) ''a'' [] 1 =
   Some (Ok, [])"
  by (simp add: searchGlobal_def searchGlobal_body_def scripted_engine_simps
        to_regex_result_def pcre_codes limit_in_force_def)

lemma searchGlobal_groups_later:
  "0 \<notin> set is \<Longrightarrow>
   searchGlobal_groups s ov first is st =
   st\<lparr>captures := captures st @
         map (capture_of first ov) (filter (\<lambda>i. group_end ov i \<le> length s) is)\<rparr>"
proof (induction "is" arbitrary: st)
  case Nil
  show ?case by simp
next
  case (Cons i "is")
  then show ?case unfolding searchGlobal_groups_Cons by simp
qed

lemma upt_from_0: "0 < rc \<Longrightarrow> [0..<nat rc] = 0 # [Suc 0..<nat rc]"
  by (simp add: upt_conv_Cons)

text \<open>
  A reply that reports a match whose whole-match group ends beyond the subject leaves the
  state of the loop as it was: the group is skipped, so neither the cursor nor the flag
  changes. An engine that keeps giving such a reply keeps the loop running, whatever the
  bound. The theorems on the course of the loop therefore say what they need of the
  engine's replies.
\<close>

lemma searchGlobal_loop_stuck:
  assumes "\<And>lim. exec_match e s 0 {} lim = (1, ov)" and "length s < group_end ov 0"
  shows "searchGlobal_loop n b e s lim
           \<lparr>startOffset = 0, prev_match_zero_length = False, captures = caps\<rparr> = None"
proof (induction n)
  case 0
  show ?case by simp
next
  case (Suc n)
  let ?st = "\<lparr>startOffset = 0, prev_match_zero_length = False, captures = caps\<rparr>"
  have r: "exec_match e s (startOffset ?st)
      (if prev_match_zero_length ?st then {NOTEMPTY_ATSTART, ANCHORED} else {}) lim = (1, ov)"
    using assms(1) by simp
  have g: "searchGlobal_groups s ov (length caps) [0] ?st = ?st"
    using assms(2) by (simp add: searchGlobal_groups_Cons del: searchGlobal_groups.simps(2))
  show ?case
    unfolding searchGlobal_loop_step[OF r]
    using Suc.IH
    by (simp add: positive_Ok g del: searchGlobal_loop.simps searchGlobal_groups.simps(2))
qed

text \<open>
  Claim C9. On the empty subject \<^verbatim>\<open>searchGlobal\<close> returns after at most two iterations
  (every bound of two or more gives a result). Its first attempt starts at offset \<open>0\<close>
  with no options. If the engine reports a match there, the match is the empty one at
  offset \<open>0\<close>, the only match the empty subject has (this is the hypothesis on the
  engine's reply); its captures are appended, the whole match first, and the function
  returns \<open>Ok\<close>. If the engine reports no match, nothing is appended and the function
  returns \<open>Ok\<close>. Only the PCRE build returns an engine error, and then appends nothing.
\<close>

theorem searchGlobal_empty_subject:
  assumes "exec_match e [] 0 {} (limit_in_force b e match_limit) = (rc, ov)"
    and "0 < rc \<longrightarrow> group_start ov 0 = 0 \<and> group_end ov 0 = 0"
  shows "searchGlobal (Suc (Suc n)) b e [] caps match_limit =
           (if b = WITHOUT_PCRE2 \<and> to_regex_result b rc \<noteq> Ok
            then Some (to_regex_result b rc, caps)
            else if 0 < rc
            then Some (Ok, caps @ \<lparr>m_group = length caps, m_offset = 0, m_length = 0\<rparr> #
                      map (capture_of (length caps) ov)
                        (filter (\<lambda>i. group_end ov i \<le> 0) [1..<nat rc]))
            else Some (Ok, caps))"
proof -
  let ?st = "\<lparr>startOffset = 0, prev_match_zero_length = False, captures = caps\<rparr>"
  have r: "exec_match e [] (startOffset ?st)
      (if prev_match_zero_length ?st then {NOTEMPTY_ATSTART, ANCHORED} else {})
      (limit_in_force b e match_limit) = (rc, ov)"
    using assms(1) by simp
  note step = searchGlobal_loop_step[OF r, of "Suc n" b]
  show ?thesis
  proof (cases "b = WITHOUT_PCRE2 \<and> to_regex_result b rc \<noteq> Ok")
    case True
    then show ?thesis unfolding searchGlobal_def step
      by (auto simp del: searchGlobal_loop.simps)
  next
    case noerr: False
    show ?thesis
    proof (cases "0 < rc")
      case False
      with noerr show ?thesis unfolding searchGlobal_def step
        by (auto simp del: searchGlobal_loop.simps)
    next
      case True
      with assms(2) have g: "group_start ov 0 = 0" "group_end ov 0 = 0" by simp_all
      then have len: "group_len ov 0 = 0" by (simp add: group_len_def size_t_sub_self)
      have c0: "capture_of (length caps) ov 0 =
          \<lparr>m_group = length caps, m_offset = 0, m_length = 0\<rparr>"
        by (simp add: capture_of_def g len)
      have notin: "0 \<notin> set [Suc 0..<nat rc]" by simp
      have grp: "searchGlobal_groups [] ov (length caps) [0..<nat rc] ?st =
          \<lparr>startOffset = 1, prev_match_zero_length = False,
           captures = caps @ \<lparr>m_group = length caps, m_offset = 0, m_length = 0\<rparr> #
             map (capture_of (length caps) ov)
               (filter (\<lambda>i. group_end ov i \<le> 0) [1..<nat rc])\<rparr>"
        unfolding upt_from_0[OF True] searchGlobal_groups_Cons
        by (simp add: g len c0 searchGlobal_groups_later[OF notin])
      have "searchGlobal_loop (Suc (Suc n)) b e [] (limit_in_force b e match_limit) ?st =
          searchGlobal_loop (Suc n) b e [] (limit_in_force b e match_limit)
            (searchGlobal_groups [] ov (length caps) [0..<nat rc] ?st)"
        unfolding step using noerr True by (auto simp del: searchGlobal_loop.simps)
      also have "\<dots> = Some (Ok, caps @ \<lparr>m_group = length caps, m_offset = 0, m_length = 0\<rparr> #
             map (capture_of (length caps) ov)
               (filter (\<lambda>i. group_end ov i \<le> 0) [1..<nat rc]))"
        unfolding grp by (subst searchGlobal_loop_past_end) simp_all
      finally show ?thesis
        unfolding searchGlobal_def using noerr True by auto
    qed
  qed
qed

theorem searchGlobal_empty_subject_witness:
  "exec_match (scripted_engine 2 (\<lambda>k opts. (1, ovector_of [0, 0]))) [] 0 {}
       (limit_in_force WITH_PCRE2 (scripted_engine 2 (\<lambda>k opts. (1, ovector_of [0, 0]))) 0)
     = (1, ovector_of [0, 0]) \<and>
   group_start (ovector_of [0, 0]) 0 = 0 \<and> group_end (ovector_of [0, 0]) 0 = 0 \<and>
   searchGlobal (Suc (Suc 0)) WITH_PCRE2 (scripted_engine 2 (\<lambda>k opts. (1, ovector_of [0, 0])))
       [] [] 0 = Some (Ok, [\<lparr>m_group = 0, m_offset = 0, m_length = 0\<rparr>])"
  using searchGlobal_empty_subject
    [of "scripted_engine 2 (\<lambda>k opts. (1, ovector_of [0, 0]))" WITH_PCRE2 0 1
        "ovector_of [0, 0]" 0 "[]"]
  by (simp add: scripted_engine_simps group_start_def group_end_def ovector_of_def
        size_t_of_def del: searchGlobal_loop.simps)

lemma searchGlobal_groups_block:
  assumes "0 < rc" and "group_end ov 0 \<le> length s"
  shows "map (capture_of first ov) (filter (\<lambda>i. group_end ov i \<le> length s) [0..<nat rc]) =
         \<lparr>m_group = first, m_offset = group_start ov 0, m_length = group_len ov 0\<rparr> #
         map (capture_of first ov) (filter (\<lambda>i. group_end ov i \<le> length s) [Suc 0..<nat rc])"
  unfolding upt_from_0[OF assms(1)] using assms(2) by (simp add: capture_of_def)

lemma searchGlobal_loop_numbered:
  "searchGlobal_loop n b e s lim st = Some (r, caps') \<Longrightarrow>
   \<exists>blocks. caps' = captures st @ concat blocks \<and>
            numbered e s lim (length (captures st)) blocks"
proof (induction n arbitrary: st)
  case 0
  then show ?case by simp
next
  case (Suc n)
  obtain rc ov where r: "exec_match e s (startOffset st)
             (if prev_match_zero_length st then {NOTEMPTY_ATSTART, ANCHORED} else {}) lim = (rc, ov)"
    by (cases "exec_match e s (startOffset st)
             (if prev_match_zero_length st then {NOTEMPTY_ATSTART, ANCHORED} else {}) lim")
  note step = searchGlobal_loop_step[OF r, of n b]
  let ?st1 = "searchGlobal_groups s ov (length (captures st)) [0..<nat rc] st"
  let ?block = "map (capture_of (length (captures st)) ov)
                  (filter (\<lambda>i. group_end ov i \<le> length s) [0..<nat rc])"
  consider (ret) "caps' = captures st"
    | (grp) "0 < rc" "searchGlobal_loop n b e s lim ?st1 = Some (r, caps')"
    | (adv) "searchGlobal_loop n b e s lim
                (st\<lparr>startOffset := advance_after_retry b e s (startOffset st),
                    prev_match_zero_length := False\<rparr>) = Some (r, caps')"
    using Suc.prems unfolding step by (auto split: if_splits)
  then show ?case
  proof cases
    case ret
    then show ?thesis by (intro exI[of _ "[]"]) simp
  next
    case grp
    have c1: "captures ?st1 = captures st @ ?block" by (rule searchGlobal_groups_captures)
    from Suc.IH[OF grp(2)] obtain blocks where
      b1: "caps' = captures ?st1 @ concat blocks"
      and b2: "numbered e s lim (length (captures ?st1)) blocks" by blast
    have hd: "group_end ov 0 \<le> length s \<longrightarrow>
        ?block \<noteq> [] \<and> m_group (hd ?block) = length (captures st)"
      using searchGlobal_groups_block[OF grp(1), of ov s "length (captures st)"] by simp
    have "numbered e s lim (length (captures st)) (?block # blocks)"
      using r grp(1) hd b2 unfolding c1 by (simp del: upt.simps) blast
    moreover have "caps' = captures st @ concat (?block # blocks)"
      using b1 unfolding c1 by simp
    ultimately show ?thesis by blast
  next
    case adv
    from Suc.IH[OF adv] show ?thesis by simp
  qed
qed

text \<open>
  Claim C10. \<^verbatim>\<open>searchGlobal\<close> numbers the captures of each match it finds from the size
  the collection has at that moment, the caller's own entries counted. An attempt that
  finds a match whose whole-match group lies inside the subject makes the body of the
  loop go round again with the captures held before, followed by the whole-match capture
  under the index that is the number of captures held before, and by the captures of
  the further groups that end inside the subject, group \<open>i\<close> under that number plus \<open>i\<close>.
  Whenever \<^verbatim>\<open>searchGlobal\<close> returns, the collection is the caller's entries followed by
  one such block for each match found, each block numbered from the size of the
  collection before it. And when the first attempt finds a match that is not empty and
  the attempt at its end finds none, \<^verbatim>\<open>searchGlobal\<close> returns \<open>Ok\<close> with the caller's entries
  followed by the captures of that match, numbered from the number of the caller's
  entries.
\<close>

theorem searchGlobal_first_capture_index:
  "(exec_match e s (startOffset st)
       (if prev_match_zero_length st then {NOTEMPTY_ATSTART, ANCHORED} else {}) lim = (rc, ov) \<and>
    0 < rc \<and> group_end ov 0 \<le> length s \<longrightarrow>
      (\<exists>st1. searchGlobal_body b e s lim st = Continue st1 \<and>
         captures st1 =
           captures st @
           \<lparr>m_group = length (captures st), m_offset = group_start ov 0,
             m_length = group_len ov 0\<rparr> #
           map (\<lambda>i. \<lparr>m_group = length (captures st) + i, m_offset = group_start ov i,
                      m_length = group_len ov i\<rparr>)
             (filter (\<lambda>i. group_end ov i \<le> length s) [1..<nat rc]))) \<and>
   (searchGlobal fuel b e s caps match_limit = Some (r, caps') \<longrightarrow>
      (\<exists>blocks. caps' = caps @ concat blocks \<and>
         numbered e s (limit_in_force b e match_limit) (length caps) blocks)) \<and>
   (exec_match e s 0 {} (limit_in_force b e match_limit) = (rc0, ov0) \<and> 0 < rc0 \<and>
    group_end ov0 0 \<le> length s \<and> group_len ov0 0 \<noteq> 0 \<and>
    fst (exec_match e s (group_end ov0 0) {} (limit_in_force b e match_limit))
      = ERROR_NOMATCH b \<longrightarrow>
      searchGlobal (Suc (Suc n)) b e s caps match_limit =
        Some (Ok, caps @
          \<lparr>m_group = length caps, m_offset = group_start ov0 0, m_length = group_len ov0 0\<rparr> #
          map (\<lambda>i. \<lparr>m_group = length caps + i, m_offset = group_start ov0 i,
                     m_length = group_len ov0 i\<rparr>)
            (filter (\<lambda>i. group_end ov0 i \<le> length s) [1..<nat rc0])))"
proof (intro conjI impI)
  assume a: "exec_match e s (startOffset st)
       (if prev_match_zero_length st then {NOTEMPTY_ATSTART, ANCHORED} else {}) lim = (rc, ov) \<and>
    0 < rc \<and> group_end ov 0 \<le> length s"
  let ?st1 = "searchGlobal_groups s ov (length (captures st)) [0..<nat rc] st"
  have cf: "capture_of (length (captures st)) ov =
      (\<lambda>i. \<lparr>m_group = length (captures st) + i, m_offset = group_start ov i,
             m_length = group_len ov i\<rparr>)"
    by (rule ext) (simp add: capture_of_def)
  have body: "searchGlobal_body b e s lim st = Continue ?st1"
    using a unfolding searchGlobal_body_def by (auto simp add: Let_def positive_Ok)
  have caps: "captures ?st1 =
           captures st @
           \<lparr>m_group = length (captures st), m_offset = group_start ov 0,
             m_length = group_len ov 0\<rparr> #
           map (\<lambda>i. \<lparr>m_group = length (captures st) + i, m_offset = group_start ov i,
                      m_length = group_len ov i\<rparr>)
             (filter (\<lambda>i. group_end ov i \<le> length s) [1..<nat rc])"
    using a unfolding searchGlobal_groups_captures
    by (simp add: searchGlobal_groups_block cf[symmetric])
  from body caps show "\<exists>st1. searchGlobal_body b e s lim st = Continue st1 \<and>
         captures st1 =
           captures st @
           \<lparr>m_group = length (captures st), m_offset = group_start ov 0,
             m_length = group_len ov 0\<rparr> #
           map (\<lambda>i. \<lparr>m_group = length (captures st) + i, m_offset = group_start ov i,
                      m_length = group_len ov i\<rparr>)
             (filter (\<lambda>i. group_end ov i \<le> length s) [1..<nat rc])"
    by blast
next
  assume "searchGlobal fuel b e s caps match_limit = Some (r, caps')"
  then show "\<exists>blocks. caps' = caps @ concat blocks \<and>
         numbered e s (limit_in_force b e match_limit) (length caps) blocks"
    using searchGlobal_loop_numbered[of fuel b e s "limit_in_force b e match_limit"
        "\<lparr>startOffset = 0, prev_match_zero_length = False, captures = caps\<rparr>" r caps']
    by (simp add: searchGlobal_def)
next
  let ?lim = "limit_in_force b e match_limit"
  assume a: "exec_match e s 0 {} ?lim = (rc0, ov0) \<and> 0 < rc0 \<and>
    group_end ov0 0 \<le> length s \<and> group_len ov0 0 \<noteq> 0 \<and>
    fst (exec_match e s (group_end ov0 0) {} ?lim) = ERROR_NOMATCH b"
  let ?st = "\<lparr>startOffset = 0, prev_match_zero_length = False, captures = caps\<rparr>"
  let ?block = "map (capture_of (length caps) ov0)
      (filter (\<lambda>i. group_end ov0 i \<le> length s) [Suc 0..<nat rc0])"
  let ?c0 = "\<lparr>m_group = length caps, m_offset = group_start ov0 0, m_length = group_len ov0 0\<rparr>"
  let ?st1 = "\<lparr>startOffset = group_end ov0 0, prev_match_zero_length = False,
      captures = caps @ ?c0 # ?block\<rparr>"
  have cf: "capture_of (length caps) ov0 =
      (\<lambda>i. \<lparr>m_group = length caps + i, m_offset = group_start ov0 i,
             m_length = group_len ov0 i\<rparr>)"
    by (rule ext) (simp add: capture_of_def)
  have r: "exec_match e s (startOffset ?st)
      (if prev_match_zero_length ?st then {NOTEMPTY_ATSTART, ANCHORED} else {}) ?lim = (rc0, ov0)"
    using a by simp
  have notin: "0 \<notin> set [Suc 0..<nat rc0]" by simp
  have c0: "capture_of (length caps) ov0 0 = ?c0" by (simp add: capture_of_def)
  have grp: "searchGlobal_groups s ov0 (length caps) [0..<nat rc0] ?st = ?st1"
    using a unfolding upt_from_0[of rc0, OF a[THEN conjunct2, THEN conjunct1]]
      searchGlobal_groups_Cons
    by (simp add: c0 searchGlobal_groups_later[OF notin])
  have "searchGlobal_loop (Suc (Suc n)) b e s ?lim ?st = searchGlobal_loop (Suc n) b e s ?lim ?st1"
    unfolding searchGlobal_loop_step[OF r] using a
    by (auto simp add: grp positive_Ok simp del: searchGlobal_loop.simps)
  also have "\<dots> = Some (Ok, caps @ ?c0 # ?block)"
    using searchGlobal_no_match_branch_plain[of ?st1 s e ?lim b n] a by simp
  finally show "searchGlobal (Suc (Suc n)) b e s caps match_limit =
        Some (Ok, caps @ ?c0 #
          map (\<lambda>i. \<lparr>m_group = length caps + i, m_offset = group_start ov0 i,
                     m_length = group_len ov0 i\<rparr>)
            (filter (\<lambda>i. group_end ov0 i \<le> length s) [1..<nat rc0]))"
    by (simp add: searchGlobal_def cf)
qed

theorem searchGlobal_first_capture_index_witness:
  "exec_match (scripted_engine 2 (\<lambda>k opts. if k = 0 then (1, ovector_of [1, 2])
                                            else (- 1, ovector_of [])))
     ''xa'' 0 {} (limit_in_force WITH_PCRE2
        (scripted_engine 2 (\<lambda>k opts. if k = 0 then (1, ovector_of [1, 2])
                                       else (- 1, ovector_of []))) 0)
     = (1, ovector_of [1, 2]) \<and>
   (0::int) < 1 \<and> group_end (ovector_of [1, 2]) 0 \<le> length ''xa'' \<and>
   group_len (ovector_of [1, 2]) 0 \<noteq> 0 \<and>
   searchGlobal (Suc (Suc 0)) WITH_PCRE2
     (scripted_engine 2 (\<lambda>k opts. if k = 0 then (1, ovector_of [1, 2])
                                    else (- 1, ovector_of [])))
     ''xa'' [\<lparr>m_group = 0, m_offset = 7, m_length = 1\<rparr>] 0 =
   Some (Ok, [\<lparr>m_group = 0, m_offset = 7, m_length = 1\<rparr>,
              \<lparr>m_group = 1, m_offset = 1, m_length = 1\<rparr>])"
proof -
  let ?e = "scripted_engine 2 (\<lambda>k opts. if k = 0 then (1, ovector_of [1, 2])
                                         else (- 1, ovector_of []))"
  let ?ov = "ovector_of [1, 2]"
  have lim: "limit_in_force WITH_PCRE2 ?e 0 = None" by (simp add: limit_in_force_def)
  have h1: "exec_match ?e ''xa'' 0 {} (limit_in_force WITH_PCRE2 ?e 0) = (1, ?ov)"
    by (simp add: scripted_engine_simps)
  have s0: "group_start ?ov 0 = 1" and e0: "group_end ?ov 0 = 2"
    by (simp_all add: group_start_def group_end_def ovector_of_def size_t_of_def)
  have l0: "group_len ?ov 0 = 1" by (simp add: group_len_def s0 e0 size_t_sub_def)
  have h3: "group_end ?ov 0 \<le> length ''xa''" by (simp add: e0)
  have h4: "group_len ?ov 0 \<noteq> 0" by (simp add: l0)
  have h5: "fst (exec_match ?e ''xa'' (group_end ?ov 0) {} (limit_in_force WITH_PCRE2 ?e 0))
      = ERROR_NOMATCH WITH_PCRE2"
    by (simp add: e0 scripted_engine_simps pcre_codes)
  have h2: "(0::int) < 1" by simp
  have "searchGlobal (Suc (Suc 0)) WITH_PCRE2 ?e ''xa''
      [\<lparr>m_group = 0, m_offset = 7, m_length = 1\<rparr>] 0 =
      Some (Ok, [\<lparr>m_group = 0, m_offset = 7, m_length = 1\<rparr>] @
          \<lparr>m_group = length [\<lparr>m_group = 0, m_offset = 7, m_length = 1\<rparr>],
            m_offset = group_start ?ov 0, m_length = group_len ?ov 0\<rparr> #
          map (\<lambda>i. \<lparr>m_group = length [\<lparr>m_group = 0, m_offset = 7, m_length = 1\<rparr>] + i,
                     m_offset = group_start ?ov i, m_length = group_len ?ov i\<rparr>)
            (filter (\<lambda>i. group_end ?ov i \<le> length ''xa'') [1..<nat 1]))"
    using searchGlobal_first_capture_index[where e = ?e and s = "''xa''" and b = WITH_PCRE2
        and match_limit = 0 and ?rc0.0 = 1 and ?ov0.0 = ?ov and n = 0
        and caps = "[\<lparr>m_group = 0, m_offset = 7, m_length = 1\<rparr>]",
        THEN conjunct2, THEN conjunct2, rule_format] h1 h2 h3 h4 h5
    by blast
  then have c: "searchGlobal (Suc (Suc 0)) WITH_PCRE2 ?e ''xa''
      [\<lparr>m_group = 0, m_offset = 7, m_length = 1\<rparr>] 0 =
      Some (Ok, [\<lparr>m_group = 0, m_offset = 7, m_length = 1\<rparr>,
              \<lparr>m_group = 1, m_offset = 1, m_length = 1\<rparr>])"
    by (simp add: s0 l0)
  from h1 h2 h3 h4 c show ?thesis by (intro conjI)
qed

section \<open>The loops of searchAll\<close>

lemma size_t_sub_eq_0:
  assumes "size_t_sub e a = 0" and "a < 2 ^ 64" and "e < 2 ^ 64"
  shows "e = a"
proof -
  have "size_t_add a (size_t_sub e a) = e" by (rule size_t_add_sub[OF assms(2,3)])
  then show ?thesis using assms(1,2) by (simp add: size_t_add_def)
qed

lemma group_len_0: "group_len ov i = 0 \<Longrightarrow> group_start ov i = group_end ov i"
  unfolding group_len_def group_start_def group_end_def
  by (rule size_t_sub_eq_0[symmetric], assumption) (rule size_t_of_less)+

lemma searchAll_groups_Cons:
  "searchAll_groups s ov (i # is) (rc, off, rl) =
     (if length s < group_end ov i then Inr (- 1, off, rl)
      else if length s < group_start ov i then Inl out_of_range
      else if group_len ov i = 0 then Inr (0, group_end ov i, match_of s ov i # rl)
      else searchAll_groups s ov is (rc, group_end ov i, match_of s ov i # rl))"
proof -
  have e: "size_t_add (size_t_of (ov (2 * i)))
             (size_t_sub (size_t_of (ov (Suc (2 * i)))) (size_t_of (ov (2 * i)))) =
           size_t_of (ov (Suc (2 * i)))"
    by (rule size_t_add_sub) (rule size_t_of_less)+
  show ?thesis
    using e
    by (auto simp add: Let_def substr_def group_start_def group_end_def group_len_def
          match_of_def)
qed

lemma discovery_groups_Cons:
  "discovery_groups s ov (i # is) (rc, off, fl) =
     (if length s < group_end ov i then Inr (- 1, off, fl)
      else if length s < group_start ov i then Inl out_of_range
      else if group_len ov i = 0 then Inr (0, group_end ov i, fl @ [match_of s ov i])
      else discovery_groups s ov is (rc, group_end ov i, fl @ [match_of s ov i]))"
proof -
  have e: "size_t_add (size_t_of (ov (2 * i)))
             (size_t_sub (size_t_of (ov (Suc (2 * i)))) (size_t_of (ov (2 * i)))) =
           size_t_of (ov (Suc (2 * i)))"
    by (rule size_t_add_sub) (rule size_t_of_less)+
  show ?thesis
    using e
    by (auto simp add: Let_def substr_def group_start_def group_end_def group_len_def
          match_of_def)
qed

lemma searchAll_groups_passes:
  "\<forall>j \<in> set js. passes s ov j \<Longrightarrow>
   searchAll_groups s ov (js @ rest) (rc, off, rl) =
   searchAll_groups s ov rest
     (rc, (if js = [] then off else group_end ov (last js)), rev (map (match_of s ov) js) @ rl)"
proof (induction js arbitrary: off rl)
  case Nil
  show ?case by simp
next
  case (Cons j js)
  from Cons.prems have p: "passes s ov j" and rest: "\<forall>j \<in> set js. passes s ov j" by simp_all
  have "searchAll_groups s ov ((j # js) @ rest) (rc, off, rl) =
        searchAll_groups s ov (js @ rest) (rc, group_end ov j, match_of s ov j # rl)"
    using p by (simp add: searchAll_groups_Cons passes_def del: searchAll_groups.simps)
  also have "\<dots> = searchAll_groups s ov rest
     (rc, (if js = [] then group_end ov j else group_end ov (last js)),
      rev (map (match_of s ov) js) @ match_of s ov j # rl)"
    by (rule Cons.IH[OF rest])
  finally show ?case by simp
qed

lemma searchAll_groups_reverses:
  "searchAll_groups s ov is (rc, off, rev fl) =
   map_sum id (\<lambda>(r, k, l). (r, k, rev l)) (discovery_groups s ov is (rc, off, fl))"
proof (induction "is" arbitrary: off fl)
  case Nil
  show ?case by simp
next
  case (Cons i "is")
  have "match_of s ov i # rev fl = rev (fl @ [match_of s ov i])" by simp
  then show ?case
    unfolding searchAll_groups_Cons discovery_groups_Cons
    by (simp add: Cons.IH del: rev_append)
qed

lemma searchAll_loop_step:
  assumes "exec_once b e s off None = (rc, ov)"
  shows "searchAll_loop (Suc n) b e s off rl =
     (case searchAll_groups s ov [0..<nat rc] (rc, off, rl) of
        Inl ex \<Rightarrow> Some (Inl ex)
      | Inr (rc1, off1, rl1) \<Rightarrow>
          if rc1 > 0 then searchAll_loop n b e s off1 rl1 else Some (Inr rl1))"
  using assms by simp

lemma discovery_loop_step:
  assumes "exec_once b e s off None = (rc, ov)"
  shows "discovery_loop (Suc n) b e s off fl =
     (case discovery_groups s ov [0..<nat rc] (rc, off, fl) of
        Inl ex \<Rightarrow> Some (Inl ex)
      | Inr (rc1, off1, fl1) \<Rightarrow>
          if rc1 > 0 then discovery_loop n b e s off1 fl1 else Some (Inr fl1))"
  using assms by simp

lemma searchAll_loop_reverses:
  "searchAll_loop n b e s off (rev fl) =
   map_option (map_sum id rev) (discovery_loop n b e s off fl)"
proof (induction n arbitrary: off fl)
  case 0
  show ?case by simp
next
  case (Suc n)
  obtain rc ov where r: "exec_once b e s off None = (rc, ov)"
    by (cases "exec_once b e s off None")
  show ?case
  proof (cases "discovery_groups s ov [0..<nat rc] (rc, off, fl)")
    case (Inl ex)
    then show ?thesis
      unfolding searchAll_loop_step[OF r] discovery_loop_step[OF r] searchAll_groups_reverses
      by simp
  next
    case (Inr t)
    obtain rc1 off1 fl1 where t: "t = (rc1, off1, fl1)" by (cases t)
    show ?thesis
      unfolding searchAll_loop_step[OF r] discovery_loop_step[OF r] searchAll_groups_reverses
        Inr t
      by (simp add: Suc.IH)
  qed
qed

lemma upt_split: "i < n \<Longrightarrow> [0..<n] = [0..<i] @ i # [Suc i..<n]"
  using upt_add_eq_append[of 0 i "n - i"] by (simp add: upt_conv_Cons)

lemma searchAll_loop_violation:
  assumes r: "exec_once b e s off None = (rc, ov)"
    and i: "i < nat rc" and before: "\<forall>j<i. passes s ov j"
    and viol: "length s < group_end ov i"
  shows "searchAll_loop (Suc n) b e s off rl =
         Some (Inr (rev (map (match_of s ov) [0..<i]) @ rl))"
proof -
  have p: "\<forall>j \<in> set [0..<i]. passes s ov j" using before by simp
  have "searchAll_groups s ov [0..<nat rc] (rc, off, rl) =
        Inr (- 1, (if [0..<i] = [] then off else group_end ov (last [0..<i])),
             rev (map (match_of s ov) [0..<i]) @ rl)"
    unfolding upt_split[OF i] searchAll_groups_passes[OF p] searchAll_groups_Cons
    using viol by simp
  then show ?thesis unfolding searchAll_loop_step[OF r] by simp
qed

lemma match_of_empty: "group_len ov i = 0 \<Longrightarrow>
  match_of s ov i = \<lparr>match_str = [], match_offset = group_start ov i\<rparr>"
  by (simp add: match_of_def)

lemma searchAll_loop_zero_length:
  assumes r: "exec_once b e s off None = (rc, ov)"
    and i: "i < nat rc" and before: "\<forall>j<i. passes s ov j"
    and inside: "group_end ov i \<le> length s" and z: "group_len ov i = 0"
  shows "searchAll_loop (Suc n) b e s off rl =
         Some (Inr (\<lparr>match_str = [], match_offset = group_start ov i\<rparr> #
                    rev (map (match_of s ov) [0..<i]) @ rl))"
proof -
  have p: "\<forall>j \<in> set [0..<i]. passes s ov j" using before by simp
  have st: "group_start ov i \<le> length s" using group_len_0[OF z] inside by simp
  have "searchAll_groups s ov [0..<nat rc] (rc, off, rl) =
        Inr (0, group_end ov i, match_of s ov i # rev (map (match_of s ov) [0..<i]) @ rl)"
    unfolding upt_split[OF i] searchAll_groups_passes[OF p] searchAll_groups_Cons
    using inside st z by simp
  then show ?thesis unfolding searchAll_loop_step[OF r] by (simp add: match_of_empty[OF z])
qed

lemma searchAll_loop_all_pass:
  assumes r: "exec_once b e s off None = (rc, ov)"
    and pos: "0 < rc" and allp: "\<forall>j<nat rc. passes s ov j"
  shows "searchAll_loop (Suc n) b e s off rl =
         searchAll_loop n b e s (group_end ov (nat rc - 1))
           (rev (map (match_of s ov) [0..<nat rc]) @ rl)"
proof -
  have p: "\<forall>j \<in> set [0..<nat rc]. passes s ov j" using allp by simp
  have ne: "[0..<nat rc] \<noteq> []" using pos by simp
  have la: "last [0..<nat rc] = nat rc - 1" using pos by simp
  have "searchAll_groups s ov ([0..<nat rc] @ []) (rc, off, rl) =
        Inr (rc, group_end ov (nat rc - 1), rev (map (match_of s ov) [0..<nat rc]) @ rl)"
    unfolding searchAll_groups_passes[OF p] using ne la by simp
  then show ?thesis unfolding searchAll_loop_step[OF r] using pos by simp
qed

text \<open>
  What holds of the order and of the empty match: \<open>searchAll_loop_reverses\<close> (the list is
  the reverse of the order of discovery, when the function returns) and
  \<open>searchAll_loop_zero_length\<close> (an empty group is recorded and the function returns).
\<close>

lemma searchAll_loop_lookbehind:
  assumes "off \<le> 1"
  shows "searchAll_loop n b
      (scripted_engine 2 (\<lambda>k opts. if k \<le> 1 then (2, ovector_of [1, 2, 0, 1])
                                     else (- 1, ovector_of [])))
      ''ab'' off rl = None"
  using assms
proof (induction n arbitrary: off rl)
  case 0
  show ?case by simp
next
  case (Suc n)
  let ?e = "scripted_engine 2 (\<lambda>k opts. if k \<le> 1 then (2, ovector_of [1, 2, 0, 1])
                                     else (- 1, ovector_of []))"
  let ?ov = "ovector_of [1, 2, 0, 1]"
  have r: "exec_once b ?e ''ab'' off None = (2, ?ov)"
    using Suc.prems by (cases b) (simp_all add: exec_once_def scripted_engine_simps pcre_codes)
  have s0: "group_start ?ov 0 = 1" and e0: "group_end ?ov 0 = 2"
    and s1: "group_start ?ov (Suc 0) = 0" and e1: "group_end ?ov (Suc 0) = 1"
    by (simp_all add: group_start_def group_end_def ovector_of_def size_t_of_def)
  have l0: "group_len ?ov 0 = 1" and l1: "group_len ?ov (Suc 0) = 1"
    by (simp_all add: group_len_def s0 e0 s1 e1 size_t_sub_def)
  have p: "\<forall>j<nat 2. passes ''ab'' ?ov j"
  proof (intro allI impI)
    fix j :: nat assume "j < nat 2"
    then have "j = 0 \<or> j = Suc 0" by auto
    then show "passes ''ab'' ?ov j"
      by (auto simp add: passes_def s0 e0 l0 s1 e1 l1)
  qed
  have "searchAll_loop (Suc n) b ?e ''ab'' off rl =
        searchAll_loop n b ?e ''ab'' (group_end ?ov (nat 2 - 1))
          (rev (map (match_of ''ab'' ?ov) [0..<nat 2]) @ rl)"
    by (rule searchAll_loop_all_pass[OF r _ p]) simp
  also have "\<dots> = None"
    by (rule Suc.IH) (simp add: e1)
  finally show ?case .
qed

text \<open>
  Claim C7, at an input where the code departs from it. For the pattern
  \<^verbatim>\<open>(?<=(a))b\<close> and the subject \<open>ab\<close> the engine reports, from the start offsets \<open>0\<close> and
  \<open>1\<close> alike, the match \<open>b\<close> at the offsets \<open>1\<close> to \<open>2\<close> and the group \<open>a\<close> at \<open>0\<close> to \<open>1\<close>.
  The group loop of \<^verbatim>\<open>searchAll\<close> sets the search offset at every group, so it leaves the
  offset at \<open>1\<close>, the end of the last group, not at \<open>2\<close>, the end of the match found. The
  next attempt finds the same match again, and so on: \<^verbatim>\<open>searchAll\<close> does not return, whatever
  the bound on its iterations.
\<close>

theorem searchAll_offset_follows_last_group:
  "searchAll_groups ''ab'' (ovector_of [1, 2, 0, 1]) [0, 1] (2, 0, []) =
     Inr (2, 1, [\<lparr>match_str = ''a'', match_offset = 0\<rparr>,
                 \<lparr>match_str = ''b'', match_offset = 1\<rparr>]) \<and>
   searchAll fuel b
     (scripted_engine 2 (\<lambda>k opts. if k \<le> 1 then (2, ovector_of [1, 2, 0, 1])
                                    else (- 1, ovector_of [])))
     ''ab'' = None"
proof
  show "searchAll_groups ''ab'' (ovector_of [1, 2, 0, 1]) [0, 1] (2, 0, []) =
     Inr (2, 1, [\<lparr>match_str = ''a'', match_offset = 0\<rparr>,
                 \<lparr>match_str = ''b'', match_offset = 1\<rparr>])"
    by (simp add: ovector_of_def size_t_of_def size_t_sub_def size_t_add_def substr_def)
next
  show "searchAll fuel b
     (scripted_engine 2 (\<lambda>k opts. if k \<le> 1 then (2, ovector_of [1, 2, 0, 1])
                                    else (- 1, ovector_of [])))
     ''ab'' = None"
    unfolding searchAll_def by (rule searchAll_loop_lookbehind) simp
qed

lemma searchAll_groups_recorded:
  "searchAll_groups s ov is (rc, off, rl) = Inr (rc1, off1, rl1) \<Longrightarrow>
   \<exists>js ks. rl1 = rev (map (match_of s ov) js) @ rl \<and>
           takeWhile (\<lambda>i. group_end ov i \<le> length s) is = js @ ks"
proof (induction "is" arbitrary: off rl)
  case Nil
  then show ?case by simp
next
  case (Cons i "is")
  consider (viol) "length s < group_end ov i" "rl1 = rl"
    | (zero) "group_end ov i \<le> length s" "rl1 = match_of s ov i # rl"
    | (pass) "group_end ov i \<le> length s"
        "searchAll_groups s ov is (rc, group_end ov i, match_of s ov i # rl) = Inr (rc1, off1, rl1)"
    using Cons.prems unfolding searchAll_groups_Cons by (auto split: if_splits)
  then show ?case
  proof cases
    case viol
    then show ?thesis by (intro exI[of _ "[]"]) simp
  next
    case zero
    then show ?thesis
      by (intro exI[of _ "[i]"] exI[of _ "takeWhile (\<lambda>i. group_end ov i \<le> length s) is"]) simp
  next
    case pass
    from Cons.IH[OF pass(2)] obtain js ks where
      "rl1 = rev (map (match_of s ov) js) @ match_of s ov i # rl"
      "takeWhile (\<lambda>i. group_end ov i \<le> length s) is = js @ ks" by blast
    with pass(1) show ?thesis
      by (intro exI[of _ "i # js"] exI[of _ ks]) simp
  qed
qed

lemma searchAll_loop_provenance:
  "searchAll_loop n b e s off rl = Some (Inr res) \<Longrightarrow>
   \<exists>new. res = new @ rl \<and>
     (\<forall>m \<in> set new. \<exists>off' i. i < nat (fst (exec_once b e s off' None)) \<and>
        group_end (snd (exec_once b e s off' None)) i \<le> length s \<and>
        m = match_of s (snd (exec_once b e s off' None)) i)"
proof (induction n arbitrary: off rl)
  case 0
  then show ?case by simp
next
  case (Suc n)
  obtain rc ov where r: "exec_once b e s off None = (rc, ov)"
    by (cases "exec_once b e s off None")
  from Suc.prems obtain rc1 off1 rl1 where
    g: "searchAll_groups s ov [0..<nat rc] (rc, off, rl) = Inr (rc1, off1, rl1)"
    and k: "(0 < rc1 \<and> searchAll_loop n b e s off1 rl1 = Some (Inr res)) \<or> res = rl1"
    unfolding searchAll_loop_step[OF r]
    by (auto split: sum.splits prod.splits if_splits)
  from searchAll_groups_recorded[OF g] obtain js ks where
    js: "rl1 = rev (map (match_of s ov) js) @ rl"
      "takeWhile (\<lambda>i. group_end ov i \<le> length s) [0..<nat rc] = js @ ks" by blast
  have sub: "set js \<subseteq> set (takeWhile (\<lambda>i. group_end ov i \<le> length s) [0..<nat rc])"
    unfolding js(2) by simp
  have good: "\<forall>j \<in> set js. j < nat rc \<and> group_end ov j \<le> length s"
  proof
    fix j assume "j \<in> set js"
    with sub have m: "j \<in> set (takeWhile (\<lambda>i. group_end ov i \<le> length s) [0..<nat rc])"
      by blast
    from set_takeWhileD[OF m] show "j < nat rc \<and> group_end ov j \<le> length s" by simp
  qed
  have here: "\<forall>m \<in> set (rev (map (match_of s ov) js)).
      \<exists>off' i. i < nat (fst (exec_once b e s off' None)) \<and>
        group_end (snd (exec_once b e s off' None)) i \<le> length s \<and>
        m = match_of s (snd (exec_once b e s off' None)) i"
  proof
    fix m assume "m \<in> set (rev (map (match_of s ov) js))"
    then obtain j where "j \<in> set js" "m = match_of s ov j" by auto
    with good r show "\<exists>off' i. i < nat (fst (exec_once b e s off' None)) \<and>
        group_end (snd (exec_once b e s off' None)) i \<le> length s \<and>
        m = match_of s (snd (exec_once b e s off' None)) i"
      by (intro exI[of _ off] exI[of _ j]) simp
  qed
  from k show ?case
  proof
    assume "res = rl1"
    with js(1) here show ?thesis by (intro exI[of _ "rev (map (match_of s ov) js)"]) simp
  next
    assume "0 < rc1 \<and> searchAll_loop n b e s off1 rl1 = Some (Inr res)"
    then have "searchAll_loop n b e s off1 rl1 = Some (Inr res)" by simp
    from Suc.IH[OF this] obtain new where
      new: "res = new @ rl1"
        "\<forall>m \<in> set new. \<exists>off' i. i < nat (fst (exec_once b e s off' None)) \<and>
          group_end (snd (exec_once b e s off' None)) i \<le> length s \<and>
          m = match_of s (snd (exec_once b e s off' None)) i" by blast
    show ?thesis
      using new js(1) here
      by (intro exI[of _ "new @ rev (map (match_of s ov) js)"]) auto
  qed
qed

lemma searchAll_loop_fuel:
  "searchAll_loop n b e s off rl = Some r \<Longrightarrow> searchAll_loop (n + k) b e s off rl = Some r"
proof (induction n arbitrary: off rl)
  case 0
  then show ?case by simp
next
  case (Suc n)
  obtain rc ov where r: "exec_once b e s off None = (rc, ov)"
    by (cases "exec_once b e s off None")
  have eq: "Suc n + k = Suc (n + k)" by simp
  show ?case
    using Suc.prems Suc.IH
    unfolding eq searchAll_loop_step[OF r, of n] searchAll_loop_step[OF r, of "n + k"]
    by (auto split: sum.splits prod.splits if_splits)
qed

section \<open>Groups that end beyond the subject\<close>

lemma searchOneMatch_captures:
  assumes "exec_once b e s 0 (limit_in_force b e match_limit) = (rc, ov)"
  shows "searchOneMatch b e s caps match_limit =
         (to_regex_result b rc,
          caps @ map (capture_of 0 ov) (filter (\<lambda>i. group_end ov i \<le> length s) [0..<nat rc]))"
  using assms by (simp add: searchOneMatch_def searchOneMatch_groups_filter)

text \<open>
  Claim C3. A group whose reported end lies beyond the end of the subject is never turned
  into a capture or a match. \<^verbatim>\<open>searchOneMatch\<close> appends the captures of exactly the groups
  that end inside the subject, in order, each under its own group index; the group loop
  of \<^verbatim>\<open>searchGlobal\<close> does the same under the running index, and every capture a call of
  \<^verbatim>\<open>searchGlobal\<close> appends ends inside the subject. In \<^verbatim>\<open>searchAll\<close>, when group \<open>i\<close> of an
  attempt ends beyond the subject (the groups before it having been recorded), the
  function returns at once with the matches of the groups before \<open>i\<close> only: neither group
  \<open>i\<close> nor a later group of that attempt is recorded, and no further attempt is made.
  Every match \<^verbatim>\<open>searchAll\<close> returns was built from a group, reported by one of its
  attempts, that ends inside the subject.
\<close>

theorem end_beyond_subject_not_surfaced:
  assumes "exec_once b e s 0 (limit_in_force b e match_limit) = (rc1, ov1)"
  shows "searchOneMatch b e s caps match_limit =
           (to_regex_result b rc1,
            caps @ map (capture_of 0 ov1)
                     (filter (\<lambda>i. group_end ov1 i \<le> length s) [0..<nat rc1])) \<and>
         captures (searchGlobal_groups s ov first is st) =
           captures st @
           map (capture_of first ov) (filter (\<lambda>i. group_end ov i \<le> length s) is) \<and>
         (\<forall>r caps'. searchGlobal fuel b e s caps match_limit = Some (r, caps') \<longrightarrow>
            (\<exists>new. caps' = caps @ new \<and> (\<forall>c \<in> set new. capture_end c \<le> length s))) \<and>
         (\<forall>i<nat rc. exec_once b e s off None = (rc, ov) \<and> (\<forall>j<i. passes s ov j) \<and>
              length s < group_end ov i \<longrightarrow>
            searchAll_loop (Suc n) b e s off retList =
            Some (Inr (rev (map (match_of s ov) [0..<i]) @ retList))) \<and>
         (\<forall>res. searchAll fuel b e s = Some (Inr res) \<longrightarrow>
            (\<forall>m \<in> set res. \<exists>off' i. i < nat (fst (exec_once b e s off' None)) \<and>
               group_end (snd (exec_once b e s off' None)) i \<le> length s \<and>
               m = match_of s (snd (exec_once b e s off' None)) i))"
proof (intro conjI allI impI)
  show "searchOneMatch b e s caps match_limit =
           (to_regex_result b rc1,
            caps @ map (capture_of 0 ov1)
                     (filter (\<lambda>i. group_end ov1 i \<le> length s) [0..<nat rc1]))"
    by (rule searchOneMatch_captures[OF assms])
next
  show "captures (searchGlobal_groups s ov first is st) =
           captures st @
           map (capture_of first ov) (filter (\<lambda>i. group_end ov i \<le> length s) is)"
    by (rule searchGlobal_groups_captures)
next
  fix r caps'
  assume "searchGlobal fuel b e s caps match_limit = Some (r, caps')"
  then show "\<exists>new. caps' = caps @ new \<and> (\<forall>c \<in> set new. capture_end c \<le> length s)"
    using searchGlobal_loop_extends[of fuel b e s "limit_in_force b e match_limit"
        "\<lparr>startOffset = 0, prev_match_zero_length = False, captures = caps\<rparr>" r caps']
    by (simp add: searchGlobal_def)
next
  fix i
  assume "i < nat rc"
    and "exec_once b e s off None = (rc, ov) \<and> (\<forall>j<i. passes s ov j) \<and>
         length s < group_end ov i"
  then show "searchAll_loop (Suc n) b e s off retList =
            Some (Inr (rev (map (match_of s ov) [0..<i]) @ retList))"
    using searchAll_loop_violation[of b e s off rc ov i n retList] by blast
next
  fix res
  assume "searchAll fuel b e s = Some (Inr res)"
  then show "\<forall>m \<in> set res. \<exists>off' i. i < nat (fst (exec_once b e s off' None)) \<and>
               group_end (snd (exec_once b e s off' None)) i \<le> length s \<and>
               m = match_of s (snd (exec_once b e s off' None)) i"
    using searchAll_loop_provenance[of fuel b e s 0 "[]" res] by (simp add: searchAll_def)
qed

theorem end_beyond_subject_not_surfaced_witness:
  "exec_once WITHOUT_PCRE2
     (scripted_engine 10 (\<lambda>k opts. if k = 0 then (2, ovector_of [0, 1, 0, 9])
                                    else (- 1, ovector_of [])))
     ''a'' 0 None = (2, ovector_of [0, 1, 0, 9]) \<and>
   passes ''a'' (ovector_of [0, 1, 0, 9]) 0 \<and>
   length ''a'' < group_end (ovector_of [0, 1, 0, 9]) 1 \<and>
   searchOneMatch WITHOUT_PCRE2
     (scripted_engine 10 (\<lambda>k opts. if k = 0 then (2, ovector_of [0, 1, 0, 9])
                                    else (- 1, ovector_of [])))
     ''a'' [] 0 = (Ok, [\<lparr>m_group = 0, m_offset = 0, m_length = 1\<rparr>]) \<and>
   searchAll_loop (Suc 0) WITHOUT_PCRE2
     (scripted_engine 10 (\<lambda>k opts. if k = 0 then (2, ovector_of [0, 1, 0, 9])
                                    else (- 1, ovector_of [])))
     ''a'' 0 [] = Some (Inr [\<lparr>match_str = ''a'', match_offset = 0\<rparr>])"
proof -
  let ?e = "scripted_engine 10 (\<lambda>k opts. if k = 0 then (2, ovector_of [0, 1, 0, 9])
                                    else (- 1, ovector_of []))"
  let ?ov = "ovector_of [0, 1, 0, 9]"
  have h1: "exec_once WITHOUT_PCRE2 ?e ''a'' 0 None = (2, ?ov)"
    by (simp add: exec_once_def scripted_engine_simps)
  have h1': "exec_once WITHOUT_PCRE2 ?e ''a'' 0 (limit_in_force WITHOUT_PCRE2 ?e 0) = (2, ?ov)"
    by (simp add: exec_once_def scripted_engine_simps)
  have s0: "group_start ?ov 0 = 0" and e0: "group_end ?ov 0 = 1" and e1: "group_end ?ov (Suc 0) = 9"
    by (simp_all add: group_start_def group_end_def ovector_of_def size_t_of_def)
  have l0: "group_len ?ov 0 = 1"
    by (simp add: group_len_def s0 e0 size_t_sub_def)
  have h2: "passes ''a'' ?ov 0" by (simp add: passes_def s0 e0 l0)
  have h3: "length ''a'' < group_end ?ov 1" by (simp add: e1)
  note t = end_beyond_subject_not_surfaced[OF h1', of "[]" ?ov 0 "[]"
      "\<lparr>startOffset = 0, prev_match_zero_length = False, captures = []\<rparr>"
      "Suc (Suc 0)" 2 0 0 "[]"]
  have c1: "searchOneMatch WITHOUT_PCRE2 ?e ''a'' [] 0 =
      (Ok, [\<lparr>m_group = 0, m_offset = 0, m_length = 1\<rparr>])"
    unfolding t[THEN conjunct1]
    by (simp add: to_regex_result_def numeral_2_eq_2 e0 e1 capture_of_def s0 l0)
  have "searchAll_loop (Suc 0) WITHOUT_PCRE2 ?e ''a'' 0 [] =
      Some (Inr (rev (map (match_of ''a'' ?ov) [0..<Suc 0]) @ []))"
    using t[THEN conjunct2, THEN conjunct2, THEN conjunct2, THEN conjunct1, rule_format,
        of "Suc 0"] h1 h2 h3
    by (simp del: searchAll_loop.simps)
  then have c2: "searchAll_loop (Suc 0) WITHOUT_PCRE2 ?e ''a'' 0 [] =
      Some (Inr [\<lparr>match_str = ''a'', match_offset = 0\<rparr>])"
    by (simp add: match_of_def s0 l0)
  from h1 h2 h3 c1 c2 show ?thesis by (intro conjI)
qed

section \<open>search with a match\<close>

lemma search_reply:
  "search b e s m =
     (let (rc, ov) = (case b of
                        WITH_PCRE2 \<Rightarrow> exec_match e s 0 (if m_pcje e = 0 then {} else {NO_JIT}) None
                      | WITHOUT_PCRE2 \<Rightarrow> exec_match e s 0 {} None)
      in if 0 < rc
         then (case substr s (size_t_of (ov 0)) (size_t_of (ov 1 - ov 0)) of
                 Inl ex \<Rightarrow> Inl ex
               | Inr text \<Rightarrow> Inr (1, \<lparr>match_str = text, match_offset = 0\<rparr>))
         else Inr (0, m))"
  by (cases b)
     (simp_all add: search_def bool_to_int_def PCRE2_ERROR_JIT_STACKLIMIT_def Let_def
        split: prod.splits)

lemma search_text_is_slice:
  assumes "(case b of
              WITH_PCRE2 \<Rightarrow> exec_match e s 0 (if m_pcje e = 0 then {} else {NO_JIT}) None
            | WITHOUT_PCRE2 \<Rightarrow> exec_match e s 0 {} None) = (rc, ov)"
    and "0 < rc" and "0 \<le> ov 0" and "ov 0 \<le> ov 1" and "ov 1 \<le> int (length s)"
    and "length s < 2 ^ 64"
  shows "search b e s m =
         Inr (1, \<lparr>match_str = take (nat (ov 1) - nat (ov 0)) (drop (nat (ov 0)) s),
                  match_offset = 0\<rparr>)"
proof -
  have "size_t_of (ov 0) = nat (ov 0)" using assms(3-6) by (intro size_t_of_nat) auto
  moreover have "size_t_of (ov 1 - ov 0) = nat (ov 1) - nat (ov 0)"
    using assms(3-6) by (subst size_t_of_nat) auto
  moreover have "nat (ov 0) \<le> length s" using assms(3-5) by auto
  ultimately show ?thesis
    unfolding search_reply using assms(1,2) by (simp add: substr_def)
qed

text \<open>
  Claim C6, at an input where the code departs from it. The engine finds the pattern
  \<open>a\<close> in the subject \<open>xa\<close> at the offsets \<open>1\<close> to \<open>2\<close>. \<^verbatim>\<open>search\<close> returns the match
  with the text \<open>a\<close>, the slice of the subject (\<open>search_text_is_slice\<close> shows this part of
  the claim in general), but with the offset \<open>0\<close>, the constant the source passes, where
  the match begins at \<open>1\<close>.
\<close>

theorem search_offset_is_constant_0:
  "search WITHOUT_PCRE2 (scripted_engine 10 (\<lambda>k opts. (1, ovector_of [1, 2]))) ''xa''
     \<lparr>match_str = [], match_offset = 0\<rparr> =
   Inr (1, \<lparr>match_str = ''a'', match_offset = 0\<rparr>) \<and>
   match_of ''xa'' (ovector_of [1, 2]) 0 = \<lparr>match_str = ''a'', match_offset = 1\<rparr>"
  by (simp add: search_reply scripted_engine_simps ovector_of_def size_t_of_def substr_def
        match_of_def group_start_def group_end_def group_len_def size_t_sub_def)

section \<open>The phase table\<close>

lemma RulesSetPhases_insert_rejects:
  "int NUMBER_OF_PHASES \<le> getPhase rule \<Longrightarrow>
   RulesSetPhases_insert NUMBER_OF_PHASES tab rule = Inr (False, tab)"
  by (simp add: RulesSetPhases_insert_def)

lemma RulesSetPhases_insert_accepts:
  "0 \<le> getPhase rule \<Longrightarrow> getPhase rule < int NUMBER_OF_PHASES \<Longrightarrow>
   NUMBER_OF_PHASES \<le> length tab \<Longrightarrow>
   RulesSetPhases_insert NUMBER_OF_PHASES tab rule =
   Inr (True, tab[nat (getPhase rule) := tab ! nat (getPhase rule) @ [rule]])"
  by (auto simp add: RulesSetPhases_insert_def Rules_insert_def)

lemma RulesSetPhases_insert_negative:
  "getPhase rule < 0 \<Longrightarrow>
   RulesSetPhases_insert NUMBER_OF_PHASES tab rule = Inl array_index_out_of_bounds"
  by (simp add: RulesSetPhases_insert_def)

text \<open>
  Claim C4, at an input where the code departs from it. With seven phases and a table of
  seven empty buckets, a rule of phase \<open>- 1\<close> passes the only check of
  \<^verbatim>\<open>RulesSetPhases::insert\<close> and the array is indexed at \<open>- 1\<close>; the function does not
  return \<open>false\<close>. The rest of the claim holds: \<open>RulesSetPhases_insert_rejects\<close> for a phase of
  \<^verbatim>\<open>NUMBER_OF_PHASES\<close> or more, \<open>RulesSetPhases_insert_accepts\<close> for a phase inside the range.
\<close>

theorem RulesSetPhases_insert_negative_phase:
  "RulesSetPhases_insert 7 (replicate 7 []) (Rule (- 1)) = Inl array_index_out_of_bounds \<and>
   RulesSetPhases_insert 7 (replicate 7 []) (Rule 7) = Inr (False, replicate 7 [])"
  by (simp add: RulesSetPhases_insert_def)

lemma collect_ids_eq: "collect_ids rs v = v @ operator_ids rs"
  by (induction rs arbitrary: v rule: operator_ids.induct) simp_all

lemma collect_ids_phases_eq:
  "collect_ids_phases tab is v = v @ concat (map (\<lambda>i. operator_ids (tab ! i)) is)"
  by (induction "is" arbitrary: v) (simp_all add: collect_ids_eq)

lemma map_nth_take: "n \<le> length xs \<Longrightarrow> map ((!) xs) [0..<n] = take n xs"
  by (induction n) (simp_all add: take_Suc_conv_app_nth)

lemma collected_ids:
  assumes "N \<le> length tab"
  shows "collect_ids_phases tab [0..<N] [] = concat (map operator_ids (take N tab))"
proof -
  have "map (\<lambda>i. operator_ids (tab ! i)) [0..<N] = map operator_ids (map ((!) tab) [0..<N])"
    by simp
  then show ?thesis
    unfolding collect_ids_phases_eq map_nth_take[OF assms] by simp
qed

lemma append_phases_Cons:
  assumes "f (tab ! p) (src ! p) v err = (res, bkt, err1)"
  shows "append_phases f src v (p # ps) a tab err =
     (if res < 0 then (res, tab[p := bkt], err1)
      else append_phases f src v ps (a + res) (tab[p := bkt]) err1)"
  using assms by simp

lemma append_phases_continue:
  "append_phases f src v ps a tab err = (a1, T, E) \<Longrightarrow> 0 \<le> a \<Longrightarrow> 0 \<le> a1 \<Longrightarrow>
   append_phases f src v (ps @ rest) a tab err = append_phases f src v rest a1 T E"
proof (induction ps arbitrary: a tab err)
  case Nil
  then show ?case by simp
next
  case (Cons p ps)
  obtain res bkt err1 where m: "f (tab ! p) (src ! p) v err = (res, bkt, err1)"
    by (cases "f (tab ! p) (src ! p) v err")
  note step = append_phases_Cons[where f = f and tab = tab and p = p and src = src and v = v
      and err = err, OF m]
  show ?case
  proof (cases "res < 0")
    case True
    with Cons.prems show ?thesis unfolding step by auto
  next
    case False
    with Cons.prems(1)
    have run: "append_phases f src v ps (a + res) (tab[p := bkt]) err1 = (a1, T, E)"
      unfolding step by simp
    have "0 \<le> a + res" using False Cons.prems(2) by simp
    from Cons.IH[OF run this Cons.prems(3)] False show ?thesis
      unfolding append_Cons step by simp
  qed
qed

lemma phase_outcomes_length [simp]: "length (phase_outcomes f tab src v err n) = n"
  by (induction n) (simp_all add: Let_def)

lemma phase_outcomes_take:
  "k \<le> n \<Longrightarrow> take k (phase_outcomes f tab src v err n) = phase_outcomes f tab src v err k"
proof (induction n)
  case 0
  then show ?case by simp
next
  case (Suc n)
  show ?case
  proof (cases "k = Suc n")
    case True
    have "length (phase_outcomes f tab src v err (Suc n)) = Suc n"
      by (rule phase_outcomes_length)
    then show ?thesis unfolding True by simp
  next
    case False
    with Suc.prems have "k \<le> n" by simp
    with Suc.IH show ?thesis by (simp add: Let_def)
  qed
qed

lemma phase_outcomes_last:
  "phase_outcomes f tab src v err (Suc k) ! k =
     f (tab ! k) (src ! k) v
       (if k = 0 then err else snd (snd (phase_outcomes f tab src v err k ! (k - 1))))"
proof -
  have ne: "k \<noteq> 0 \<Longrightarrow> phase_outcomes f tab src v err k \<noteq> []"
    by (metis phase_outcomes_length list.size(3))
  have "k \<noteq> 0 \<Longrightarrow> last (phase_outcomes f tab src v err k) =
      phase_outcomes f tab src v err k ! (k - 1)"
    using ne by (simp add: last_conv_nth)
  then show ?thesis by (auto simp add: Let_def nth_append)
qed

lemma phase_outcomes_nth:
  assumes "k < n"
  shows "phase_outcomes f tab src v err n ! k =
     f (tab ! k) (src ! k) v
       (if k = 0 then err else snd (snd (phase_outcomes f tab src v err n ! (k - 1))))"
proof -
  let ?outs = "phase_outcomes f tab src v err n"
  have a: "?outs ! k = take (Suc k) ?outs ! k" by simp
  have b: "k \<noteq> 0 \<Longrightarrow> ?outs ! (k - 1) = take k ?outs ! (k - 1)" by simp
  show ?thesis
    unfolding a using assms b
    by (simp add: phase_outcomes_take phase_outcomes_last del: phase_outcomes.simps)
qed

lemma update_at_boundary:
  assumes "length xs = k" and "k < length tab"
  shows "(xs @ drop k tab)[k := y] = (xs @ [y]) @ drop (Suc k) tab"
proof -
  have "drop k tab = tab ! k # drop (Suc k) tab"
    using assms(2) by (simp add: Cons_nth_drop_Suc)
  then show ?thesis using assms(1) by (simp add: list_update_append)
qed

lemma append_phases_prefix:
  assumes "N \<le> length tab" and "k \<le> N"
    and "\<forall>j<k. 0 \<le> fst (phase_outcomes f tab src v err N ! j)"
  shows "append_phases f src v [0..<k] 0 tab err =
     (sum_list (map fst (take k (phase_outcomes f tab src v err N))),
      map (fst \<circ> snd) (take k (phase_outcomes f tab src v err N)) @ drop k tab,
      if k = 0 then err else snd (snd (phase_outcomes f tab src v err N ! (k - 1))))"
  using assms(2,3)
proof (induction k)
  case 0
  show ?case by simp
next
  case (Suc k)
  let ?outs = "phase_outcomes f tab src v err N"
  let ?a = "sum_list (map fst (take k ?outs))"
  let ?T = "map (fst \<circ> snd) (take k ?outs) @ drop k tab"
  let ?E = "if k = 0 then err else snd (snd (?outs ! (k - 1)))"
  from Suc.prems have kN: "k < N" and kl: "k < length tab" using assms(1) by simp_all
  have IH: "append_phases f src v [0..<k] 0 tab err = (?a, ?T, ?E)"
    using Suc.IH Suc.prems by simp
  have nonneg: "0 \<le> ?a"
  proof (rule sum_list_nonneg)
    fix x assume "x \<in> set (map fst (take k ?outs))"
    then obtain j where "j < k" "x = fst (?outs ! j)"
      using kN by (auto simp add: in_set_conv_nth)
    with Suc.prems(2) show "0 \<le> x" by simp
  qed
  have Tk: "?T ! k = tab ! k" using kN kl by (simp add: nth_append)
  obtain res bkt err1 where out: "?outs ! k = (res, bkt, err1)" by (cases "?outs ! k")
  have m: "f (?T ! k) (src ! k) v ?E = (res, bkt, err1)"
    unfolding Tk using phase_outcomes_nth[OF kN, of f tab src v err] out by simp
  have res: "0 \<le> res" using Suc.prems(2) out by (auto dest: spec[of _ k])
  have tk: "take (Suc k) ?outs = take k ?outs @ [(res, bkt, err1)]"
    using kN out by (simp add: take_Suc_conv_app_nth)
  have upd: "?T[k := bkt] = map (fst \<circ> snd) (take (Suc k) ?outs) @ drop (Suc k) tab"
    unfolding tk using update_at_boundary[of "map (fst \<circ> snd) (take k ?outs)" k tab bkt] kN kl
    by simp
  have "append_phases f src v [0..<Suc k] 0 tab err =
        append_phases f src v ([0..<k] @ [k]) 0 tab err" by simp
  also have "\<dots> = append_phases f src v [k] ?a ?T ?E"
    by (rule append_phases_continue[OF IH _ nonneg]) simp
  also have "\<dots> = (?a + res, ?T[k := bkt], err1)"
    unfolding append_phases_Cons[where f = f and tab = ?T and p = k and src = src and v = v
        and err = ?E, OF m]
    using res by simp
  finally show ?case
    unfolding upd using out by (simp add: tk)
qed

text \<open>
  Claim C8. \<^verbatim>\<open>RulesSetPhases::append\<close> first builds \<open>v\<close>, the sorted list of the
  identifiers of the rules with an operator in the buckets of all phases of the
  destination, and then merges phase after phase, in ascending order, with this one list.
  Let \<open>outs\<close> be what the merges of the phases give, each from the bucket of the source
  into the bucket the destination had before the call, with \<open>v\<close> and with the error sink
  handed on. If no merge answers with a negative result, \<^verbatim>\<open>append\<close> returns the sum of the
  results and leaves every bucket as its merge left it. If the merge of phase \<open>k\<close> is the
  first to answer with a negative result, \<^verbatim>\<open>append\<close> returns that result at once: the
  buckets up to \<open>k\<close> are as their merges left them (nothing is rolled back) and the
  buckets after \<open>k\<close> are untouched.
\<close>

theorem RulesSetPhases_append_shared_ids_no_rollback:
  assumes "N \<le> length tab"
    and "v = sort (concat (map operator_ids (take N tab)))"
    and "outs = phase_outcomes f tab src v err N"
  shows "sorted v \<and>
     (\<forall>j<N. outs ! j =
        f (tab ! j) (src ! j) v (if j = 0 then err else snd (snd (outs ! (j - 1))))) \<and>
     ((\<forall>j<N. 0 \<le> fst (outs ! j)) \<longrightarrow>
        RulesSetPhases_append N f tab src err =
          (sum_list (map fst outs), map (fst \<circ> snd) outs @ drop N tab,
           if N = 0 then err else snd (snd (outs ! (N - 1))))) \<and>
     (\<forall>k<N. fst (outs ! k) < 0 \<and> (\<forall>j<k. 0 \<le> fst (outs ! j)) \<longrightarrow>
        RulesSetPhases_append N f tab src err =
          (fst (outs ! k), map (fst \<circ> snd) (take (Suc k) outs) @ drop (Suc k) tab,
           snd (snd (outs ! k))))"
proof -
  have def: "RulesSetPhases_append N f tab src err = append_phases f src v [0..<N] 0 tab err"
    by (simp add: RulesSetPhases_append_def collected_ids[OF assms(1)] assms(2))
  have c1: "sorted v" by (simp add: assms(2))
  have c2: "\<forall>j<N. outs ! j =
        f (tab ! j) (src ! j) v (if j = 0 then err else snd (snd (outs ! (j - 1))))"
    unfolding assms(3) by (intro allI impI) (rule phase_outcomes_nth)
  have c3: "(\<forall>j<N. 0 \<le> fst (outs ! j)) \<longrightarrow>
        RulesSetPhases_append N f tab src err =
          (sum_list (map fst outs), map (fst \<circ> snd) outs @ drop N tab,
           if N = 0 then err else snd (snd (outs ! (N - 1))))"
  proof
    assume "\<forall>j<N. 0 \<le> fst (outs ! j)"
    then show "RulesSetPhases_append N f tab src err =
          (sum_list (map fst outs), map (fst \<circ> snd) outs @ drop N tab,
           if N = 0 then err else snd (snd (outs ! (N - 1))))"
      unfolding def assms(3)
      using append_phases_prefix[OF assms(1), of N f src v err] by simp
  qed
  have c4: "\<forall>k<N. fst (outs ! k) < 0 \<and> (\<forall>j<k. 0 \<le> fst (outs ! j)) \<longrightarrow>
        RulesSetPhases_append N f tab src err =
          (fst (outs ! k), map (fst \<circ> snd) (take (Suc k) outs) @ drop (Suc k) tab,
           snd (snd (outs ! k)))"
  proof (intro allI impI)
    fix k assume kN: "k < N"
      and a: "fst (outs ! k) < 0 \<and> (\<forall>j<k. 0 \<le> fst (outs ! j))"
    let ?a = "sum_list (map fst (take k outs))"
    let ?T = "map (fst \<circ> snd) (take k outs) @ drop k tab"
    let ?E = "if k = 0 then err else snd (snd (outs ! (k - 1)))"
    have kl: "k < length tab" using kN assms(1) by simp
    have len: "length outs = N" unfolding assms(3) by simp
    have pre: "append_phases f src v [0..<k] 0 tab err = (?a, ?T, ?E)"
      using append_phases_prefix[OF assms(1), of k f src v err] kN a
      unfolding assms(3) by simp
    have nonneg: "0 \<le> ?a"
    proof (rule sum_list_nonneg)
      fix x assume "x \<in> set (map fst (take k outs))"
      then obtain j where "j < k" "x = fst (outs ! j)"
        using kN len by (auto simp add: in_set_conv_nth)
      with a show "0 \<le> x" by simp
    qed
    have Tk: "?T ! k = tab ! k" using kN kl len by (simp add: nth_append)
    obtain res bkt err1 where out: "outs ! k = (res, bkt, err1)" by (cases "outs ! k")
    have m: "f (?T ! k) (src ! k) v ?E = (res, bkt, err1)"
      unfolding Tk using c2 kN out by simp
    have tk: "take (Suc k) outs = take k outs @ [(res, bkt, err1)]"
      using kN out len by (simp add: take_Suc_conv_app_nth)
    have upd: "?T[k := bkt] = map (fst \<circ> snd) (take (Suc k) outs) @ drop (Suc k) tab"
      unfolding tk
      using update_at_boundary[of "map (fst \<circ> snd) (take k outs)" k tab bkt] kN kl len
      by simp
    have "append_phases f src v [0..<N] 0 tab err =
          append_phases f src v (k # [Suc k..<N]) ?a ?T ?E"
      unfolding upt_split[OF kN]
      by (rule append_phases_continue[OF pre _ nonneg]) simp
    also have "\<dots> = (res, ?T[k := bkt], err1)"
      unfolding append_phases_Cons[where f = f and tab = ?T and p = k and src = src and v = v
          and err = ?E, OF m]
      using a out by simp
    finally show "RulesSetPhases_append N f tab src err =
          (fst (outs ! k), map (fst \<circ> snd) (take (Suc k) outs) @ drop (Suc k) tab,
           snd (snd (outs ! k)))"
      unfolding def upd using out by simp
  qed
  from c1 c2 c3 c4 show ?thesis by (intro conjI)
qed

theorem RulesSetPhases_append_shared_ids_no_rollback_witness:
  "Suc (Suc 0) \<le> length [[RuleWithOperator 0 5], []] \<and>
   RulesSetPhases_append (Suc (Suc 0)) refusing_merge [[RuleWithOperator 0 5], []]
     [[Rule 0], [RuleWithOperator 1 6]] [] =
     (2, [[RuleWithOperator 0 5, Rule 0], [RuleWithOperator 1 6]], []) \<and>
   RulesSetPhases_append (Suc (Suc 0)) refusing_merge [[RuleWithOperator 0 5], []]
     [[Rule 0], [RuleWithOperator 1 5]] [] =
     (- 1, [[RuleWithOperator 0 5, Rule 0], []], [''duplicated rule id''])"
proof -
  let ?tab = "[[RuleWithOperator 0 5], []]"
  let ?ok = "[[Rule 0], [RuleWithOperator 1 6]]"
  let ?bad = "[[Rule 0], [RuleWithOperator 1 5]]"
  let ?v = "sort (concat (map operator_ids (take (Suc (Suc 0)) ?tab)))"
  have v: "?v = [5]" by simp
  have h1: "Suc (Suc 0) \<le> length ?tab" by simp
  have o1: "phase_outcomes refusing_merge ?tab ?ok ?v [] (Suc (Suc 0)) =
      [(1, [RuleWithOperator 0 5, Rule 0], []), (1, [RuleWithOperator 1 6], [])]"
    unfolding v by (simp add: refusing_merge_def)
  have o2: "phase_outcomes refusing_merge ?tab ?bad ?v [] (Suc (Suc 0)) =
      [(1, [RuleWithOperator 0 5, Rule 0], []), (- 1, [], [''duplicated rule id''])]"
    unfolding v by (simp add: refusing_merge_def)
  have c1: "RulesSetPhases_append (Suc (Suc 0)) refusing_merge ?tab ?ok [] =
      (2, [[RuleWithOperator 0 5, Rule 0], [RuleWithOperator 1 6]], [])"
    using RulesSetPhases_append_shared_ids_no_rollback[OF h1 refl refl,
        where f = refusing_merge and src = ?ok and err = "[]",
        THEN conjunct2, THEN conjunct2, THEN conjunct1]
    unfolding o1 by (simp add: less_Suc_eq)
  have c2: "RulesSetPhases_append (Suc (Suc 0)) refusing_merge ?tab ?bad [] =
      (- 1, [[RuleWithOperator 0 5, Rule 0], []], [''duplicated rule id''])"
    using RulesSetPhases_append_shared_ids_no_rollback[OF h1 refl refl,
        where f = refusing_merge and src = ?bad and err = "[]",
        THEN conjunct2, THEN conjunct2, THEN conjunct2, rule_format, of "Suc 0"]
    unfolding o2 by (simp add: less_Suc_eq)
  from h1 c1 c2 show ?thesis by (intro conjI)
qed

end
